theory Spec2Isabelle
  imports Main "HOL-Library.Sublist"
begin

section \<open>Strings\<close>

text \<open>
  A Python \<open>str\<close> is a sequence of Unicode code points. A code point is a natural
  number, a string is a list of them, and a "character" of the source (the value of
  \<open>text[i]\<close>, or the empty string that stands for a missing neighbour) is a string of
  length one or zero.
\<close>

type_synonym str = "nat list"

definition ustr :: "string \<Rightarrow> str" where
  "ustr s = map of_char s"

datatype error = IndexError

text \<open>
  \<open>text[i]\<close>, a string of one character: an index from \<open>-len(text)\<close> to \<open>-1\<close> counts
  from the end, and any index outside \<open>-len(text) .. len(text) - 1\<close> raises.
\<close>

definition getitem :: "str \<Rightarrow> int \<Rightarrow> error + str" where
  "getitem text i =
     (if 0 \<le> i \<and> i < int (length text) then Inr [text ! nat i]
      else if i < 0 \<and> - int (length text) \<le> i then Inr [text ! nat (int (length text) + i)]
      else Inl IndexError)"

text \<open>\<open>sub in text\<close> and the search behind it: the first offset at which \<open>sub\<close> occurs.\<close>

fun find_sub :: "str \<Rightarrow> str \<Rightarrow> nat option" where
  "find_sub sub [] = (if sub = [] then Some 0 else None)"
| "find_sub sub (c # cs) =
     (if prefix sub (c # cs) then Some 0 else map_option Suc (find_sub sub cs))"

definition str_in :: "str \<Rightarrow> str \<Rightarrow> bool" where
  "str_in sub text = (find_sub sub text \<noteq> None)"

section \<open>The quote characters\<close>

record QuoteChars =
  LEFT_DOUBLE :: str
  RIGHT_DOUBLE :: str
  LEFT_SINGLE :: str
  RIGHT_SINGLE :: str
  STRAIGHT_DOUBLE :: str
  STRAIGHT_SINGLE :: str

definition QUOTES :: QuoteChars where
  "QUOTES = \<lparr> LEFT_DOUBLE = [0x201C], RIGHT_DOUBLE = [0x201D],
              LEFT_SINGLE = [0x2018], RIGHT_SINGLE = [0x2019],
              STRAIGHT_DOUBLE = [0x22], STRAIGHT_SINGLE = [0x27] \<rparr>"

definition OPENING_CONTEXT :: "str set" where
  "OPENING_CONTEXT =
     { [0x20], [0x09], [0x0A], [0x0D],
       ustr ''('', ustr ''['', ustr ''{'', ustr ''<'',
       LEFT_DOUBLE QUOTES, LEFT_SINGLE QUOTES }"

text \<open>
  \<open>_LETTER_REGEX.match(char)\<close> with the pattern \<open>[a-zA-Z]\<close>: the first code point of
  \<open>char\<close> is an ASCII letter; no match on the empty string.
\<close>

definition is_letter :: "str \<Rightarrow> bool" where
  "is_letter char =
     (case char of [] \<Rightarrow> False
      | c # _ \<Rightarrow> (0x61 \<le> c \<and> c \<le> 0x7A) \<or> (0x41 \<le> c \<and> c \<le> 0x5A))"

definition is_opening_context :: "str \<Rightarrow> bool \<Rightarrow> str \<Rightarrow> bool" where
  "is_opening_context prev_char is_start opposite_quote =
     (is_start \<or> prev_char \<in> OPENING_CONTEXT \<or> prev_char = opposite_quote)"

definition convert_char :: "str \<Rightarrow> str \<Rightarrow> str \<Rightarrow> bool \<Rightarrow> str" where
  "convert_char char prev_char next_char is_start =
     (if char = STRAIGHT_DOUBLE QUOTES then
        (if is_opening_context prev_char is_start (LEFT_SINGLE QUOTES)
         then LEFT_DOUBLE QUOTES else RIGHT_DOUBLE QUOTES)
      else if char = STRAIGHT_SINGLE QUOTES then
        (if is_letter prev_char \<and> is_letter next_char then RIGHT_SINGLE QUOTES
         else if is_opening_context prev_char is_start (LEFT_DOUBLE QUOTES)
         then LEFT_SINGLE QUOTES else RIGHT_SINGLE QUOTES)
      else char)"

section \<open>The Quote Director\<close>

text \<open>
  The body of the \<open>for i, char in enumerate(text)\<close> loop, with \<open>result\<close> as the
  accumulator. Both neighbours are read with \<open>text[...]\<close>, which can raise; the loop
  stops at the first error.
\<close>

fun convert_loop :: "str \<Rightarrow> (nat \<times> nat) list \<Rightarrow> str list \<Rightarrow> error + str list" where
  "convert_loop text [] result = Inr result"
| "convert_loop text ((i, char) # rest) result =
     (case (if i > 0 then getitem text (int i - 1) else Inr []) of
        Inl e \<Rightarrow> Inl e
      | Inr prev_char \<Rightarrow>
     (case (if int i < int (length text) - 1 then getitem text (int i + 1) else Inr []) of
        Inl e \<Rightarrow> Inl e
      | Inr next_char \<Rightarrow>
          convert_loop text rest
            (result @ [convert_char [char] prev_char next_char (i = 0)])))"

definition convert_to_smart_quotes :: "str \<Rightarrow> error + str" where
  "convert_to_smart_quotes text =
     (case convert_loop text (enumerate 0 text) [] of
        Inl e \<Rightarrow> Inl e
      | Inr result \<Rightarrow> Inr (concat result))"

definition has_straight_quotes :: "str \<Rightarrow> bool" where
  "has_straight_quotes text =
     (str_in (STRAIGHT_DOUBLE QUOTES) text \<or> str_in (STRAIGHT_SINGLE QUOTES) text)"

section \<open>The Markdown Shield\<close>

definition PLACEHOLDER_PREFIX :: str where
  "PLACEHOLDER_PREFIX = ustr ''<<SMART_QUOTES_CODE_BLOCK_''"

definition PLACEHOLDER_SUFFIX :: str where
  "PLACEHOLDER_SUFFIX = ustr ''>>''"

record CodeBlock =
  placeholder :: str
  content :: str

text \<open>
  The two variables that the closure \<open>create_placeholder\<close> shares with
  \<open>smart_quote_markdown\<close>; they are local to one call of the latter.
\<close>

record mask_state =
  code_blocks :: "CodeBlock list"
  placeholder_index :: nat

text \<open>The decimal digits of a non-negative integer, as an f-string formats it.\<close>

fun str_of_nat :: "nat \<Rightarrow> str" where
  "str_of_nat n =
     (if n < 10 then [0x30 + n] else str_of_nat (n div 10) @ [0x30 + n mod 10])"

declare str_of_nat.simps [simp del]

text \<open>\<open>create_placeholder\<close>, applied to the text of a match (\<open>match.group(0)\<close>).\<close>

definition create_placeholder :: "str \<Rightarrow> mask_state \<Rightarrow> str \<times> mask_state" where
  "create_placeholder cont st =
     (let ph = PLACEHOLDER_PREFIX @ str_of_nat (placeholder_index st) @ PLACEHOLDER_SUFFIX
      in (ph, \<lparr> code_blocks = code_blocks st @ [\<lparr> placeholder = ph, content = cont \<rparr>],
                placeholder_index = placeholder_index st + 1 \<rparr>))"

subsection \<open>The three patterns\<close>

text \<open>
  Each pattern is a function from the rest of the text at the position tried (and, for
  the anchor \<open>^\<close>, whether that position is the start of the text) to the length of
  the match the backtracking matcher finds there, if any.
\<close>

definition BACKTICK :: nat where
  "BACKTICK = 0x60"

definition NEWLINE :: nat where
  "NEWLINE = 0x0A"

text \<open>
  Three backticks, then \<open>[\s\S]*?\<close>: as few characters as possible, of any kind, up
  to the next three backticks.
\<close>

definition match_fenced :: "bool \<Rightarrow> str \<Rightarrow> nat option" where
  "match_fenced at_start s =
     (if prefix (replicate 3 BACKTICK) s then
        (case find_sub (replicate 3 BACKTICK) (drop 3 s) of
           Some j \<Rightarrow> Some (3 + j + 3)
         | None \<Rightarrow> None)
      else None)"

text \<open>
  \<open>(`+)[\s\S]*?\1\<close>: the group is greedy, so the matcher first takes the whole run of
  backticks and gives one back each time no closing run of the same length follows.
\<close>

fun match_ticks :: "nat \<Rightarrow> str \<Rightarrow> nat option" where
  "match_ticks 0 s = None"
| "match_ticks (Suc k) s =
     (case find_sub (replicate (Suc k) BACKTICK) (drop (Suc k) s) of
        Some j \<Rightarrow> Some (Suc k + j + Suc k)
      | None \<Rightarrow> match_ticks k s)"

definition match_inline :: "bool \<Rightarrow> str \<Rightarrow> nat option" where
  "match_inline at_start s = match_ticks (length (takeWhile (\<lambda>c. c = BACKTICK) s)) s"

text \<open>\<open>(?:[ ]{4}|\t)\<close>: four spaces, else one tab.\<close>

definition match_indent :: "str \<Rightarrow> nat option" where
  "match_indent s =
     (if prefix (replicate 4 0x20) s then Some 4
      else if prefix [0x09] s then Some 1
      else None)"

text \<open>\<open>.*\<close>: greedy, and \<open>.\<close> is every character but the newline.\<close>

definition match_dot_star :: "str \<Rightarrow> nat" where
  "match_dot_star s = length (takeWhile (\<lambda>c. c \<noteq> NEWLINE) s)"

text \<open>\<open>(?:\n(?:[ ]{4}|\t).*)*\<close>: as many further indented lines as follow.\<close>

fun match_more_lines :: "str \<Rightarrow> nat" where
  "match_more_lines [] = 0"
| "match_more_lines (c # cs) =
     (if c = NEWLINE then
        (case match_indent cs of
           Some k \<Rightarrow>
             (let l = match_dot_star (drop k cs)
              in 1 + k + l + match_more_lines (drop (k + l) cs))
         | None \<Rightarrow> 0)
      else 0)"

text \<open>The group \<open>((?:[ ]{4}|\t).*(?:\n(?:[ ]{4}|\t).*)*)\<close>.\<close>

definition match_block :: "str \<Rightarrow> nat option" where
  "match_block s =
     (case match_indent s of
        Some k \<Rightarrow>
          (let l = match_dot_star (drop k s)
           in Some (k + l + match_more_lines (drop (k + l) s)))
      | None \<Rightarrow> None)"

text \<open>
  \<open>(?:^|\n)\<close> before the group: the anchor is tried first, and only at the start of
  the text (the pattern is compiled without the multi-line flag); then the newline.
\<close>

definition match_indented :: "bool \<Rightarrow> str \<Rightarrow> nat option" where
  "match_indented at_start s =
     (case (if at_start then match_block s else None) of
        Some n \<Rightarrow> Some n
      | None \<Rightarrow>
          (case s of
             [] \<Rightarrow> None
           | c # cs \<Rightarrow> if c = NEWLINE then map_option Suc (match_block cs) else None))"

subsection \<open>Substitution\<close>

text \<open>
  \<open>re.sub(pattern, create_placeholder, text)\<close>: from left to right, the match at the
  leftmost position that has one is replaced by what \<open>create_placeholder\<close> returns
  for it, and the search goes on behind the match; a character at which nothing matches
  is copied. None of the three patterns matches the empty string: a match covers the
  character \<open>c\<close> at least.
\<close>

fun re_sub :: "(bool \<Rightarrow> str \<Rightarrow> nat option) \<Rightarrow> bool \<Rightarrow> str \<Rightarrow> mask_state \<Rightarrow> str \<times> mask_state" where
  "re_sub pat at_start [] st = ([], st)"
| "re_sub pat at_start (c # cs) st =
     (case pat at_start (c # cs) of
        Some n \<Rightarrow>
          (case create_placeholder (take n (c # cs)) st of
             (ph, st') \<Rightarrow>
               (case re_sub pat False (drop (n - 1) cs) st' of
                  (out, st'') \<Rightarrow> (ph @ out, st'')))
      | None \<Rightarrow>
          (case re_sub pat False cs st of
             (out, st') \<Rightarrow> (c # out, st')))"

text \<open>\<open>s.replace(old, new)\<close>: every occurrence of \<open>old\<close>, from left to right.\<close>

fun str_replace :: "str \<Rightarrow> str \<Rightarrow> str \<Rightarrow> str" where
  "str_replace old new [] = (if old = [] then new else [])"
| "str_replace old new (c # cs) =
     (if old = [] then new @ c # str_replace old new cs
      else if prefix old (c # cs) then new @ str_replace old new (drop (length old - 1) cs)
      else c # str_replace old new cs)"

text \<open>The loop \<open>for block in code_blocks\<close> that restores the code.\<close>

fun restore :: "CodeBlock list \<Rightarrow> str \<Rightarrow> str" where
  "restore [] processed = processed"
| "restore (block # blocks) processed =
     restore blocks (str_replace (placeholder block) (content block) processed)"

text \<open>The steps 1 to 3: the masked text and the blocks taken out of it.\<close>

definition mask_text :: "str \<Rightarrow> str \<times> mask_state" where
  "mask_text text =
     (case re_sub match_fenced True text \<lparr> code_blocks = [], placeholder_index = 0 \<rparr> of
        (processed1, st1) \<Rightarrow>
     (case re_sub match_inline True processed1 st1 of
        (processed2, st2) \<Rightarrow>
          re_sub match_indented True processed2 st2))"

text \<open>The steps 4 and 5 after the masking: what follows the early exit.\<close>

definition pipeline :: "str \<Rightarrow> error + str" where
  "pipeline text =
     (case mask_text text of
        (processed, st) \<Rightarrow>
          (case convert_to_smart_quotes processed of
             Inl e \<Rightarrow> Inl e
           | Inr converted \<Rightarrow> Inr (restore (code_blocks st) converted)))"

definition smart_quote_markdown :: "str \<Rightarrow> error + str" where
  "smart_quote_markdown text =
     (if \<not> has_straight_quotes text then Inr text else pipeline text)"

section \<open>Auxiliary definitions\<close>

text \<open>
  The code point that the loop of \<open>convert_to_smart_quotes\<close> appends for position
  \<open>i\<close>: \<open>_convert_char\<close> on the character and the two neighbours the loop reads.
\<close>

definition converted_at :: "str \<Rightarrow> nat \<Rightarrow> nat" where
  "converted_at text i =
     hd (convert_char [text ! i]
           (if 0 < i then [text ! (i - 1)] else [])
           (if i + 1 < length text then [text ! (i + 1)] else [])
           (i = 0))"

text \<open>The placeholder with a given number, and the characters a placeholder is made of.\<close>

definition placeholder_for :: "nat \<Rightarrow> str" where
  "placeholder_for n = PLACEHOLDER_PREFIX @ str_of_nat n @ PLACEHOLDER_SUFFIX"

definition placeholder_chars :: "nat set" where
  "placeholder_chars = set PLACEHOLDER_PREFIX \<union> {0x30..0x39} \<union> set PLACEHOLDER_SUFFIX"

subsection \<open>Masked texts as sequences of characters and placeholders\<close>

text \<open>
  For the proofs about restoration, a masked text is read as a sequence of tokens: a
  character, or the placeholder with a given number. \<open>flat\<close> is the masked text
  itself, \<open>orig\<close> the text with every placeholder replaced by the content of its
  block, and \<open>fill\<close> the sequence after one placeholder has been replaced.
\<close>

datatype tok = Ch nat | Hole nat

fun flat :: "tok list \<Rightarrow> str" where
  "flat [] = []"
| "flat (Ch c # ts) = c # flat ts"
| "flat (Hole i # ts) = placeholder_for i @ flat ts"

fun orig :: "CodeBlock list \<Rightarrow> tok list \<Rightarrow> str" where
  "orig bs [] = []"
| "orig bs (Ch c # ts) = c # orig bs ts"
| "orig bs (Hole i # ts) = content (bs ! i) @ orig bs ts"

definition plain :: "tok list \<Rightarrow> bool" where
  "plain ts = (\<forall>i. Hole i \<notin> set ts)"

definition holes_below :: "nat \<Rightarrow> tok list \<Rightarrow> bool" where
  "holes_below n ts = (\<forall>i. Hole i \<in> set ts \<longrightarrow> i < n)"

definition wf_state :: "mask_state \<Rightarrow> bool" where
  "wf_state st =
     (placeholder_index st = length (code_blocks st) \<and>
      (\<forall>i<length (code_blocks st). placeholder (code_blocks st ! i) = placeholder_for i))"

fun fill :: "nat \<Rightarrow> str \<Rightarrow> tok list \<Rightarrow> tok list" where
  "fill i cont [] = []"
| "fill i cont (Ch c # ts) = Ch c # fill i cont ts"
| "fill i cont (Hole k # ts) =
     (if k = i then map Ch cont @ fill i cont ts else Hole k # fill i cont ts)"

text \<open>
  What the proofs need of a pattern: a match is not empty and lies inside the text, it
  does not begin with a character of a placeholder, and it does not end inside one.
\<close>

definition good_pat :: "(bool \<Rightarrow> str \<Rightarrow> nat option) \<Rightarrow> bool" where
  "good_pat pat =
     (\<forall>b s n. pat b s = Some n \<longrightarrow>
        1 \<le> n \<and> n \<le> length s \<and> hd s \<notin> placeholder_chars \<and>
        (last (take n s) \<notin> placeholder_chars \<or> drop n s = [] \<or>
         hd (drop n s) \<notin> placeholder_chars))"

subsection \<open>The per-character rules, as the specification words them\<close>

text \<open>
  The previous and the next character are \<open>None\<close> where the specification says
  "empty". The opening-context set is the one the specification lists: space, tab,
  newline, carriage return, the four left brackets and the two left smart quotes.
\<close>

definition spec_opening_context :: "nat set" where
  "spec_opening_context =
     {0x20, 0x09, 0x0A, 0x0D, 0x28, 0x5B, 0x7B, 0x3C, 0x201C, 0x2018}"

definition spec_ascii_letter :: "nat option \<Rightarrow> bool" where
  "spec_ascii_letter x =
     (case x of None \<Rightarrow> False
      | Some c \<Rightarrow> (0x61 \<le> c \<and> c \<le> 0x7A) \<or> (0x41 \<le> c \<and> c \<le> 0x5A))"

definition spec_in_opening_context :: "nat option \<Rightarrow> bool" where
  "spec_in_opening_context x =
     (case x of None \<Rightarrow> False | Some c \<Rightarrow> c \<in> spec_opening_context)"

definition spec_convert :: "nat option \<Rightarrow> nat \<Rightarrow> nat option \<Rightarrow> bool \<Rightarrow> nat" where
  "spec_convert prev cur nxt is_start =
     (if cur = 0x22 then
        (if is_start \<or> spec_in_opening_context prev \<or> prev = Some 0x2018
         then 0x201C else 0x201D)
      else if cur = 0x27 then
        (if spec_ascii_letter prev \<and> spec_ascii_letter nxt then 0x2019
         else if is_start \<or> spec_in_opening_context prev \<or> prev = Some 0x201C
         then 0x2018 else 0x2019)
      else cur)"

definition spec_prev :: "str \<Rightarrow> nat \<Rightarrow> nat option" where
  "spec_prev s i = (if i = 0 then None else Some (s ! (i - 1)))"

definition spec_next :: "str \<Rightarrow> nat \<Rightarrow> nat option" where
  "spec_next s i = (if i + 1 < length s then Some (s ! (i + 1)) else None)"

section \<open>Properties of the Quote Director\<close>

lemma getitem_in_range:
  "0 \<le> i \<Longrightarrow> nat i < length text \<Longrightarrow> getitem text i = Inr [text ! nat i]"
  by (simp add: getitem_def Let_def)

lemma convert_char_single:
  "convert_char [c] p n b = [hd (convert_char [c] p n b)]"
  by (simp add: convert_char_def QUOTES_def)

lemma convert_loop_run:
  "k + n = length text \<Longrightarrow>
   convert_loop text (enumerate k (drop k text)) result =
     Inr (result @ map (\<lambda>i. [converted_at text i]) [k..<length text])"
proof (induction n arbitrary: k result)
  case 0
  then show ?case by simp
next
  case (Suc n)
  then have k: "k < length text" by simp
  have d: "drop k text = text ! k # drop (Suc k) text"
    using k by (simp add: Cons_nth_drop_Suc)
  have p: "0 < k \<Longrightarrow> getitem text (int k - 1) = Inr [text ! (k - 1)]"
    using k getitem_in_range [of "int k - 1" "text"] by (simp add: nat_diff_distrib')
  have q: "int k < int (length text) - 1 \<Longrightarrow> getitem text (int k + 1) = Inr [text ! (k + 1)]"
    using getitem_in_range [of "int k + 1" "text"] by (simp add: nat_add_distrib)
  have q': "(int k < int (length text) - 1) = (k + 1 < length text)" by auto
  have c: "convert_char [text ! k]
           (if 0 < k then [text ! (k - 1)] else [])
           (if k + 1 < length text then [text ! (k + 1)] else [])
           (k = 0) = [converted_at text k]"
    unfolding converted_at_def by (rule convert_char_single)
  have u: "[k..<length text] = k # [Suc k..<length text]"
    using k by (simp add: upt_conv_Cons)
  have ih: "convert_loop text (enumerate (Suc k) (drop (Suc k) text)) r =
     Inr (r @ map (\<lambda>i. [converted_at text i]) [Suc k..<length text])" for r
    using Suc.IH [of "Suc k" r] Suc.prems by simp
  have e: "enumerate k (drop k text) = (k, text ! k) # enumerate (Suc k) (drop (Suc k) text)"
    by (subst d) simp
  have step: "convert_loop text ((k, text ! k) # rest) result =
      convert_loop text rest (result @ [[converted_at text k]])" for rest
  proof (cases "0 < k")
    case True
    show ?thesis
    proof (cases "k + 1 < length text")
      case t: True
      then show ?thesis using True p q q' c by simp
    next
      case f: False
      then show ?thesis using True p q' c by simp
    qed
  next
    case False
    show ?thesis
    proof (cases "k + 1 < length text")
      case t: True
      then show ?thesis using False q q' c by simp
    next
      case f: False
      then show ?thesis using False q' c by simp
    qed
  qed
  show ?case unfolding e step ih u by simp
qed

lemma convert_to_smart_quotes_eq:
  "convert_to_smart_quotes text = Inr (map (converted_at text) [0..<length text])"
proof -
  have "convert_loop text (enumerate 0 text) [] =
          Inr (map (\<lambda>i. [converted_at text i]) [0..<length text])"
    using convert_loop_run [of 0 "length text" "text" "[]"] by simp
  moreover have "concat (map (\<lambda>i. [converted_at text i]) xs) = map (converted_at text) xs" for xs
    by (induction xs) simp_all
  ultimately show ?thesis by (simp add: convert_to_smart_quotes_def)
qed

lemma converted_at_not_straight:
  "converted_at text i \<noteq> 0x22 \<and> converted_at text i \<noteq> 0x27"
  by (simp add: converted_at_def convert_char_def QUOTES_def)

lemma converted_at_other:
  "text ! i \<noteq> 0x22 \<Longrightarrow> text ! i \<noteq> 0x27 \<Longrightarrow> converted_at text i = text ! i"
  by (simp add: converted_at_def convert_char_def QUOTES_def)

lemma str_in_single: "str_in [c] s = (c \<in> set s)"
  unfolding str_in_def by (induction s) auto

lemma has_straight_quotes_iff:
  "has_straight_quotes text = (0x22 \<in> set text \<or> 0x27 \<in> set text)"
  by (simp add: has_straight_quotes_def QUOTES_def str_in_single)

lemma convert_no_quotes:
  assumes "0x22 \<notin> set text" "0x27 \<notin> set text"
  shows "convert_to_smart_quotes text = Inr text"
proof -
  have "map (converted_at text) [0..<length text] = map ((!) text) [0..<length text]"
    using assms by (intro map_cong refl converted_at_other) (auto simp: in_set_conv_nth)
  then show ?thesis by (simp add: convert_to_smart_quotes_eq map_nth)
qed

lemma converted_at_spec:
  "converted_at s i = spec_convert (spec_prev s i) (s ! i) (spec_next s i) (i = 0)"
  by (simp add: converted_at_def convert_char_def QUOTES_def is_opening_context_def
      OPENING_CONTEXT_def ustr_def is_letter_def spec_convert_def spec_prev_def spec_next_def
      spec_in_opening_context_def spec_opening_context_def spec_ascii_letter_def)

lemma converted_at_window:
  assumes "s ! i = t ! j" "(i = 0) = (j = 0)" "0 < i \<longrightarrow> s ! (i - 1) = t ! (j - 1)"
    "(i + 1 < length s) = (j + 1 < length t)"
    "i + 1 < length s \<longrightarrow> s ! (i + 1) = t ! (j + 1)"
  shows "converted_at s i = converted_at t j"
  using assms by (auto simp add: converted_at_def)

section \<open>Properties of the patterns and of the substitution\<close>

lemma find_sub_Some:
  "find_sub p s = Some j \<Longrightarrow>
     prefix p (drop j s) \<and> j \<le> length s \<and> (\<forall>i<j. \<not> prefix p (drop i s))"
proof (induction s arbitrary: j)
  case Nil
  then show ?case by (simp split: if_splits)
next
  case (Cons c cs)
  show ?case
  proof (cases "prefix p (c # cs)")
    case True
    with Cons.prems show ?thesis by simp
  next
    case False
    with Cons.prems obtain j' where j': "find_sub p cs = Some j'" "j = Suc j'"
      by auto
    from Cons.IH [OF j'(1)] False j'(2) show ?thesis
      by (auto simp add: less_Suc_eq_0_disj)
  qed
qed

lemma find_sub_None:
  "find_sub p s = None \<Longrightarrow> \<not> prefix p (drop k s)"
proof (induction s arbitrary: k)
  case Nil
  then show ?case by (simp split: if_splits)
next
  case (Cons c cs)
  then show ?case by (cases k) (auto split: if_splits)
qed

lemma find_sub_prefix:
  "prefix p (drop k s) \<Longrightarrow> \<exists>j. find_sub p s = Some j"
  using find_sub_None [of p s k] by (cases "find_sub p s") auto

lemma re_sub_id:
  "(\<And>b' k. pat b' (drop k s) = None) \<Longrightarrow> re_sub pat b s st = (s, st)"
proof (induction s arbitrary: b)
  case Nil
  then show ?case by simp
next
  case (Cons c cs)
  have "pat b (c # cs) = None" using Cons.prems [of b 0] by simp
  moreover have "re_sub pat False cs st = (cs, st)"
  proof (rule Cons.IH)
    fix b' k show "pat b' (drop k cs) = None"
      using Cons.prems [of b' "Suc k"] by simp
  qed
  ultimately show ?case by simp
qed

lemma match_ticks_Some:
  "match_ticks n s = Some m \<Longrightarrow>
     \<exists>k j. 1 \<le> k \<and> k \<le> n \<and> m = k + j + k \<and>
           find_sub (replicate k BACKTICK) (drop k s) = Some j \<and>
           (\<forall>k'. k < k' \<and> k' \<le> n \<longrightarrow> find_sub (replicate k' BACKTICK) (drop k' s) = None)"
proof (induction n)
  case 0
  then show ?case by simp
next
  case (Suc n)
  show ?case
  proof (cases "find_sub (replicate (Suc n) BACKTICK) (drop (Suc n) s)")
    case None
    with Suc.prems have "match_ticks n s = Some m" by simp
    from Suc.IH [OF this] obtain k j where kj: "1 \<le> k" "k \<le> n" "m = k + j + k"
      "find_sub (replicate k BACKTICK) (drop k s) = Some j"
      "\<forall>k'. k < k' \<and> k' \<le> n \<longrightarrow> find_sub (replicate k' BACKTICK) (drop k' s) = None"
      by blast
    have "\<forall>k'. k < k' \<and> k' \<le> Suc n \<longrightarrow> find_sub (replicate k' BACKTICK) (drop k' s) = None"
      using kj(5) None by (auto simp add: le_Suc_eq)
    with kj show ?thesis by (intro exI [of _ k] exI [of _ j]) auto
  next
    case (Some j)
    with Suc.prems have "m = Suc n + j + Suc n" by simp
    with Some show ?thesis by (intro exI [of _ "Suc n"] exI [of _ j]) auto
  qed
qed

lemma takeWhile_run:
  "prefix (replicate (length (takeWhile (\<lambda>c. c = b) s)) b) s"
  by (induction s) auto

lemma PLACEHOLDER_PREFIX_eq:
  "PLACEHOLDER_PREFIX = [60, 60, 83, 77, 65, 82, 84, 95, 81, 85, 79, 84, 69, 83, 95, 67, 79,
     68, 69, 95, 66, 76, 79, 67, 75, 95]"
  by (simp add: PLACEHOLDER_PREFIX_def ustr_def)

lemma PLACEHOLDER_SUFFIX_eq: "PLACEHOLDER_SUFFIX = [62, 62]"
  by (simp add: PLACEHOLDER_SUFFIX_def ustr_def)

lemma set_str_of_nat: "set (str_of_nat n) \<subseteq> {0x30..0x39}"
proof (induction n rule: str_of_nat.induct)
  case (1 n)
  show ?case
  proof (cases "n < 10")
    case True
    then show ?thesis by (subst str_of_nat.simps) simp
  next
    case False
    have "n mod 10 < 10" by simp
    then have "48 + n mod 10 \<in> {48..57}" by simp
    with 1 False show ?thesis by (subst str_of_nat.simps) simp
  qed
qed

lemma set_placeholder_for: "set (placeholder_for n) \<subseteq> placeholder_chars"
  using set_str_of_nat [of n] by (auto simp add: placeholder_for_def placeholder_chars_def)

lemma placeholder_chars_iff:
  "c \<in> placeholder_chars \<longleftrightarrow>
     c \<in> {60, 83, 77, 65, 82, 84, 95, 81, 85, 79, 69, 67, 68, 66, 76, 75, 62} \<or> (48 \<le> c \<and> c \<le> 57)"
  by (auto simp add: placeholder_chars_def PLACEHOLDER_PREFIX_eq PLACEHOLDER_SUFFIX_eq)

lemma create_placeholder_eq:
  "create_placeholder cont st =
     (placeholder_for (placeholder_index st),
      \<lparr> code_blocks = code_blocks st @
           [\<lparr> placeholder = placeholder_for (placeholder_index st), content = cont \<rparr>],
        placeholder_index = Suc (placeholder_index st) \<rparr>)"
  by (simp add: create_placeholder_def placeholder_for_def Let_def)

lemma placeholder_for_Cons:
  "placeholder_for n = 60 # 60 # 83 # drop 3 (placeholder_for n)"
  by (simp add: placeholder_for_def PLACEHOLDER_PREFIX_eq)

lemma re_sub_chars:
  "re_sub pat b s st = (out, st') \<Longrightarrow> set out \<subseteq> set s \<union> placeholder_chars"
proof (induction "length s" arbitrary: s b st out st' rule: less_induct)
  case less
  show ?case
  proof (cases s)
    case Nil
    with less.prems show ?thesis by simp
  next
    case (Cons c cs)
    show ?thesis
    proof (cases "pat b (c # cs)")
      case None
      obtain out1 st1 where r: "re_sub pat False cs st = (out1, st1)" by force
      with less.prems Cons None have o: "out = c # out1" by simp
      have "set out1 \<subseteq> set cs \<union> placeholder_chars"
        using less.hyps [OF _ r] Cons by simp
      with o Cons show ?thesis by auto
    next
      case (Some n)
      let ?st1 = "snd (create_placeholder (take n (c # cs)) st)"
      obtain out1 st1 where r: "re_sub pat False (drop (n - 1) cs) ?st1 = (out1, st1)" by force
      with less.prems Cons Some have o: "out = placeholder_for (placeholder_index st) @ out1"
        by (simp add: create_placeholder_eq)
      have "set out1 \<subseteq> set (drop (n - 1) cs) \<union> placeholder_chars"
        using less.hyps [OF _ r] Cons by simp
      moreover have "set (drop (n - 1) cs) \<subseteq> set cs" by (rule set_drop_subset)
      ultimately show ?thesis using o Cons set_placeholder_for [of "placeholder_index st"]
        by auto
    qed
  qed
qed

lemma match_fenced_Some:
  "match_fenced b s = Some n \<Longrightarrow>
     prefix (replicate 3 BACKTICK) s \<and> (\<exists>j. find_sub (replicate 3 BACKTICK) (drop 3 s) = Some j \<and> n = 3 + j + 3)"
  by (auto simp add: match_fenced_def split: if_splits option.splits)


text \<open>After an opening fence that nothing closes, the fenced pass finds nothing.\<close>

lemma fenced_unclosed:
  assumes "find_sub (replicate 3 BACKTICK) (drop 3 s) = None"
  shows "re_sub match_fenced b s st = (s, st)"
proof (rule re_sub_id)
  fix b' k
  show "match_fenced b' (drop k s) = None"
  proof (rule ccontr)
    assume "match_fenced b' (drop k s) \<noteq> None"
    then obtain n where "match_fenced b' (drop k s) = Some n" by auto
    from match_fenced_Some [OF this] obtain j where
      "find_sub (replicate 3 BACKTICK) (drop 3 (drop k s)) = Some j" by auto
    from find_sub_Some [OF this] have "prefix (replicate 3 BACKTICK) (drop (j + k) (drop 3 s))"
      by (simp add: ac_simps)
    with find_sub_None [OF assms] show False by blast
  qed
qed


lemma BACKTICK_notin_placeholder: "BACKTICK \<notin> set (placeholder_for n)"
  using set_placeholder_for [of n] by (auto simp add: placeholder_chars_iff BACKTICK_def)

lemma not_prefix_ticks:
  "s \<noteq> [] \<Longrightarrow> hd s \<noteq> BACKTICK \<Longrightarrow> \<not> prefix (replicate (Suc k) BACKTICK) s"
  by (cases s) auto



lemma match_inline_Some:
  assumes "match_inline b s = Some m"
  shows "\<exists>k j. 1 \<le> k \<and> m = k + j + k \<and> m \<le> length s \<and>
           prefix (replicate k BACKTICK) s \<and>
           prefix (replicate k BACKTICK) (drop (k + j) s) \<and>
           (\<forall>i<j. \<not> prefix (replicate k BACKTICK) (drop (k + i) s))"
proof -
  let ?n = "length (takeWhile (\<lambda>c. c = BACKTICK) s)"
  from assms have "match_ticks ?n s = Some m" by (simp add: match_inline_def)
  from match_ticks_Some [OF this] obtain k j where kj: "1 \<le> k" "k \<le> ?n" "m = k + j + k"
    "find_sub (replicate k BACKTICK) (drop k s) = Some j" by blast
  from find_sub_Some [OF kj(4)] have f: "prefix (replicate k BACKTICK) (drop (k + j) s)"
    "\<forall>i<j. \<not> prefix (replicate k BACKTICK) (drop (k + i) s)"
    by (simp_all add: add.commute)
  have "replicate ?n BACKTICK = replicate k BACKTICK @ replicate (?n - k) BACKTICK"
    using kj(2) by (simp flip: replicate_add)
  then have q: "prefix (replicate k BACKTICK) (replicate ?n BACKTICK)"
    by (metis prefixI)
  have p: "prefix (replicate k BACKTICK) s"
    by (rule prefix_order.trans [OF q takeWhile_run])
  from f(1) have "k \<le> length (drop (k + j) s)"
    by (metis length_replicate prefix_length_le)
  with kj(1) have "k + j + k \<le> length s" by simp
  with kj f p show ?thesis by blast
qed


lemma match_inline_no_backtick:
  "BACKTICK \<notin> set s \<Longrightarrow> match_inline b (drop k s) = None"
proof -
  assume "BACKTICK \<notin> set s"
  then have "BACKTICK \<notin> set (drop k s)" by (meson in_set_dropD)
  then have "takeWhile (\<lambda>c. c = BACKTICK) (drop k s) = []"
    by (cases "drop k s") auto
  then show ?thesis by (simp add: match_inline_def)
qed

lemma match_inline_lone_backtick:
  assumes "length (filter (\<lambda>c. c = BACKTICK) s) \<le> 1"
  shows "match_inline b (drop k s) = None"
proof (rule ccontr)
  assume "match_inline b (drop k s) \<noteq> None"
  then obtain m where "match_inline b (drop k s) = Some m" by auto
  from match_inline_Some [OF this] obtain k' j where kj: "1 \<le> k'"
    "prefix (replicate k' BACKTICK) (drop k s)"
    "prefix (replicate k' BACKTICK) (drop (k' + j) (drop k s))" by blast
  obtain k'' where k'': "k' = Suc k''" using kj(1) by (cases k') auto
  from kj(2) k'' obtain r1 where r1: "drop k s = BACKTICK # r1"
    by (cases "drop k s") auto
  from kj(3) k'' r1 have "prefix (replicate (Suc k'') BACKTICK) (drop (k'' + j) r1)" by simp
  then have "BACKTICK \<in> set (drop (k'' + j) r1)"
    by (cases "drop (k'' + j) r1") auto
  then have "BACKTICK \<in> set r1" by (meson in_set_dropD)
  then have "filter (\<lambda>c. c = BACKTICK) r1 \<noteq> []"
    by (simp add: filter_empty_conv)
  then have "1 \<le> length (filter (\<lambda>c. c = BACKTICK) r1)"
    by (cases "filter (\<lambda>c. c = BACKTICK) r1") auto
  moreover obtain pre where "s = pre @ BACKTICK # r1"
    using r1 by (metis append_take_drop_id)
  then have "length (filter (\<lambda>c. c = BACKTICK) s) =
      length (filter (\<lambda>c. c = BACKTICK) pre) + 1 + length (filter (\<lambda>c. c = BACKTICK) r1)"
    by simp
  ultimately show False using assms by linarith
qed

lemma match_indented_None:
  assumes "\<And>k. match_indent (drop k s) = None"
  shows "match_indented b (drop k s) = None"
proof -
  have blk: "match_block (drop k s) = None" for k
    using assms [of k] by (simp add: match_block_def)
  show ?thesis
  proof (cases "drop k s")
    case Nil
    then show ?thesis using blk [of k] by (simp add: match_indented_def)
  next
    case (Cons c cs)
    then have "cs = drop (Suc k) s" by (metis drop_Suc list.sel(3) tl_drop)
    then have "match_block cs = None" using blk [of "Suc k"] by simp
    with Cons blk [of k] show ?thesis by (simp add: match_indented_def)
  qed
qed

lemma match_indent_None:
  assumes "0x09 \<notin> set s" "\<not> str_in (replicate 4 0x20) s"
  shows "match_indent (drop k s) = None"
proof -
  have "\<not> prefix (replicate 4 0x20) (drop k s)"
    using assms(2) find_sub_prefix [of "replicate 4 0x20" k s] by (auto simp add: str_in_def)
  moreover have "\<not> prefix [0x09] (drop k s)"
  proof
    assume "prefix [0x09] (drop k s)"
    then have "0x09 \<in> set (drop k s)" by (cases "drop k s") auto
    with assms(1) show False by (meson in_set_dropD)
  qed
  ultimately show ?thesis by (simp add: match_indent_def)
qed

lemma match_indent_no_space:
  assumes "0x09 \<notin> set s" "0x20 \<notin> set s"
  shows "match_indent (drop k s) = None"
proof (rule match_indent_None [OF assms(1)])
  show "\<not> str_in (replicate 4 0x20) s"
  proof
    assume "str_in (replicate 4 0x20) s"
    then obtain j where "find_sub (replicate 4 0x20) s = Some j" by (auto simp add: str_in_def)
    from find_sub_Some [OF this] have "prefix (replicate 4 0x20) (drop j s)" by simp
    then have "0x20 \<in> set (drop j s)" by (cases "drop j s") (auto simp add: numeral_eq_Suc)
    with assms(2) show False by (meson in_set_dropD)
  qed
qed

lemma str_replace_self: "old \<noteq> [] \<Longrightarrow> str_replace old new old = new"
  by (cases old) simp_all

subsection \<open>Texts that a pass leaves alone or takes out whole\<close>

lemma placeholder_for_0:
  "placeholder_for 0 = [60, 60, 83, 77, 65, 82, 84, 95, 81, 85, 79, 84, 69, 83, 95, 67, 79,
     68, 69, 95, 66, 76, 79, 67, 75, 95, 48, 62, 62]"
  by (simp add: placeholder_for_def PLACEHOLDER_PREFIX_eq PLACEHOLDER_SUFFIX_eq str_of_nat.simps)

lemma ticks3: "replicate 3 BACKTICK = [96, 96, 96]"
  by (simp add: numeral_3_eq_3 BACKTICK_def)


lemma placeholder_no_indent: "match_indent (drop k (placeholder_for n)) = None"
proof (rule match_indent_no_space)
  show "0x09 \<notin> set (placeholder_for n)" "0x20 \<notin> set (placeholder_for n)"
    using set_placeholder_for [of n] by (auto simp add: placeholder_chars_iff)
qed

lemma placeholder_no_quotes:
  "0x22 \<notin> set (placeholder_for n)" "0x27 \<notin> set (placeholder_for n)"
  using set_placeholder_for [of n] by (auto simp add: placeholder_chars_iff)

text \<open>A text that the first pass takes out as a whole comes back unchanged.\<close>

lemma single_fenced_block:
  assumes "match_fenced True s = Some (length s)"
  shows "pipeline s = Inr s"
proof -
  let ?ph = "placeholder_for 0"
  let ?st = "\<lparr> code_blocks = [\<lparr> placeholder = ?ph, content = s \<rparr>], placeholder_index = Suc 0 \<rparr>"
  obtain c cs where s: "s = c # cs"
    using assms by (cases s) (auto simp add: match_fenced_def)
  have 1: "re_sub match_fenced True s \<lparr> code_blocks = [], placeholder_index = 0 \<rparr> = (?ph, ?st)"
    using assms unfolding s by (simp add: create_placeholder_eq)
  have 2: "re_sub match_inline True ?ph ?st = (?ph, ?st)"
    by (rule re_sub_id) (rule match_inline_no_backtick [OF BACKTICK_notin_placeholder])
  have 3: "re_sub match_indented True ?ph ?st = (?ph, ?st)"
    by (rule re_sub_id) (rule match_indented_None [OF placeholder_no_indent])
  have 4: "convert_to_smart_quotes ?ph = Inr ?ph"
    by (rule convert_no_quotes [OF placeholder_no_quotes])
  have 5: "str_replace ?ph s ?ph = s"
    by (rule str_replace_self) (simp add: placeholder_for_0)
  show ?thesis by (simp add: pipeline_def mask_text_def 1 2 3 4 5)
qed

lemma match_fenced_whole:
  assumes "find_sub (replicate 3 BACKTICK) (body @ replicate 3 BACKTICK) = Some (length body)"
  shows "match_fenced b (replicate 3 BACKTICK @ body @ replicate 3 BACKTICK) =
     Some (length (replicate 3 BACKTICK @ body @ replicate 3 BACKTICK))"
  using assms by (simp add: match_fenced_def)

lemma convert_placeholders:
  "convert_to_smart_quotes (placeholder_for m @ placeholder_for n) =
     Inr (placeholder_for m @ placeholder_for n)"
  using placeholder_no_quotes [of m] placeholder_no_quotes [of n]
  by (intro convert_no_quotes) auto

lemma mask_chars:
  assumes "mask_text s = (out, st)"
  shows "set out \<subseteq> set s \<union> placeholder_chars"
proof -
  obtain p1 st1 where 1: "re_sub match_fenced True s \<lparr> code_blocks = [], placeholder_index = 0 \<rparr> = (p1, st1)"
    by force
  obtain p2 st2 where 2: "re_sub match_inline True p1 st1 = (p2, st2)" by force
  from assms 1 2 have 3: "re_sub match_indented True p2 st2 = (out, st)"
    by (simp add: mask_text_def)
  from re_sub_chars [OF 1] re_sub_chars [OF 2] re_sub_chars [OF 3] show ?thesis by blast
qed

text \<open>A text in which no pass finds a match goes to the Director as it is.\<close>

lemma mask_plain:
  assumes "\<And>b k. match_fenced b (drop k s) = None" "\<And>b k. match_inline b (drop k s) = None"
    "\<And>k. match_indent (drop k s) = None"
  shows "mask_text s = (s, \<lparr> code_blocks = [], placeholder_index = 0 \<rparr>)"
  by (simp add: mask_text_def re_sub_id [of match_fenced, OF assms(1)]
      re_sub_id [of match_inline, OF assms(2)]
      re_sub_id [of match_indented, OF match_indented_None [of s, OF assms(3)]])

lemma pipeline_plain:
  assumes "\<And>b k. match_fenced b (drop k s) = None" "\<And>b k. match_inline b (drop k s) = None"
    "\<And>k. match_indent (drop k s) = None"
  shows "pipeline s = convert_to_smart_quotes s"
proof -
  obtain out where "convert_to_smart_quotes s = Inr out"
    by (simp add: convert_to_smart_quotes_eq)
  then show ?thesis by (simp add: pipeline_def mask_plain [OF assms])
qed

section \<open>Masking and restoring\<close>

lemma match_fenced_bounds:
  assumes "match_fenced b s = Some n"
  shows "1 \<le> n \<and> n \<le> length s \<and> hd s = BACKTICK \<and> last (take n s) = BACKTICK"
proof -
  from match_fenced_Some [OF assms] obtain j where p: "prefix (replicate 3 BACKTICK) s"
    and j: "find_sub (replicate 3 BACKTICK) (drop 3 s) = Some j" and n: "n = 3 + j + 3" by blast
  from find_sub_Some [OF j] have q: "prefix (replicate 3 BACKTICK) (drop (3 + j) s)"
    by (simp add: add.commute)
  then obtain z where z: "drop (3 + j) s = replicate 3 BACKTICK @ z"
    by (auto simp add: prefix_def)
  then have "length (drop (3 + j) s) = 3 + length z" by simp
  then have l: "n \<le> length s" using n by simp
  have "take n s = take (3 + j) s @ take 3 (drop (3 + j) s)"
    unfolding n by (rule take_add)
  then have "take n s = take (3 + j) s @ replicate 3 BACKTICK" using z by simp
  then have "last (take n s) = BACKTICK" by (simp add: numeral_3_eq_3)
  moreover have "hd s = BACKTICK" using p by (cases s) (auto simp add: numeral_3_eq_3)
  ultimately show ?thesis using l n by simp
qed

lemma match_inline_bounds:
  assumes "match_inline b s = Some n"
  shows "1 \<le> n \<and> n \<le> length s \<and> hd s = BACKTICK \<and> last (take n s) = BACKTICK"
proof -
  from match_inline_Some [OF assms] obtain k j where k: "1 \<le> k" and n: "n = k + j + k"
    and l: "n \<le> length s" and p: "prefix (replicate k BACKTICK) s"
    and q: "prefix (replicate k BACKTICK) (drop (k + j) s)" by blast
  obtain k' where k': "k = Suc k'" using k by (cases k) auto
  from q obtain z where z: "drop (k + j) s = replicate k BACKTICK @ z"
    by (auto simp add: prefix_def)
  have "take n s = take (k + j) s @ take k (drop (k + j) s)"
    unfolding n by (rule take_add)
  then have "take n s = take (k + j) s @ replicate k BACKTICK" using z by simp
  then have "last (take n s) = BACKTICK" using k' by simp
  moreover have "hd s = BACKTICK" using p k' by (cases s) auto
  ultimately show ?thesis using l n k by simp
qed

lemma match_indent_Some:
  "match_indent s = Some k \<Longrightarrow> 1 \<le> k \<and> k \<le> length s \<and> (hd s = 0x20 \<or> hd s = 0x09)"
  by (cases s) (auto simp add: match_indent_def numeral_eq_Suc prefix_def split: if_splits)

lemma match_dot_star_bounds:
  "match_dot_star s \<le> length s \<and>
   (drop (match_dot_star s) s = [] \<or> hd (drop (match_dot_star s) s) = NEWLINE)"
proof -
  have "drop (match_dot_star s) s = dropWhile (\<lambda>c. c \<noteq> NEWLINE) s"
    unfolding match_dot_star_def by (rule dropWhile_eq_drop [symmetric])
  moreover have "dropWhile (\<lambda>c. c \<noteq> NEWLINE) s = [] \<or> hd (dropWhile (\<lambda>c. c \<noteq> NEWLINE) s) = NEWLINE"
    using hd_dropWhile [of "\<lambda>c. c \<noteq> NEWLINE" s] by auto
  ultimately show ?thesis by (simp add: match_dot_star_def length_takeWhile_le)
qed

lemma match_more_lines_bounds:
  "match_more_lines s \<le> length s \<and>
   (s = [] \<or> hd s = NEWLINE \<longrightarrow>
      drop (match_more_lines s) s = [] \<or> hd (drop (match_more_lines s) s) = NEWLINE)"
proof (induction s rule: match_more_lines.induct)
  case 1
  then show ?case by simp
next
  case (2 c cs)
  show ?case
  proof (cases "c = NEWLINE")
    case False
    then show ?thesis by simp
  next
    case True
    show ?thesis
    proof (cases "match_indent cs")
      case None
      with True show ?thesis by simp
    next
      case (Some k)
      let ?l = "match_dot_star (drop k cs)"
      let ?r = "drop (k + ?l) cs"
      from match_indent_Some [OF Some] have k: "k \<le> length cs" by simp
      from match_dot_star_bounds [of "drop k cs"]
      have l: "?l \<le> length cs - k" and e: "?r = [] \<or> hd ?r = NEWLINE"
        by (simp_all add: add.commute)
      from "2.IH" [OF True Some refl] e
      have ih: "match_more_lines ?r \<le> length ?r"
        "drop (match_more_lines ?r) ?r = [] \<or> hd (drop (match_more_lines ?r) ?r) = NEWLINE"
        by auto
      have m: "match_more_lines (c # cs) = 1 + k + ?l + match_more_lines ?r"
        using True Some by (simp add: Let_def)
      have "drop (match_more_lines (c # cs)) (c # cs) = drop (match_more_lines ?r) ?r"
        unfolding m by (simp add: add.commute add.left_commute)
      with ih(2) have "drop (match_more_lines (c # cs)) (c # cs) = [] \<or>
          hd (drop (match_more_lines (c # cs)) (c # cs)) = NEWLINE"
        by (simp only:)
      moreover have "match_more_lines (c # cs) \<le> length (c # cs)"
        unfolding m using k l ih(1) by simp
      ultimately show ?thesis by blast
    qed
  qed
qed

lemma match_block_bounds:
  assumes "match_block s = Some n"
  shows "1 \<le> n \<and> n \<le> length s \<and> (hd s = 0x20 \<or> hd s = 0x09) \<and>
         (drop n s = [] \<or> hd (drop n s) = NEWLINE)"
proof -
  from assms obtain k where k: "match_indent s = Some k"
    by (cases "match_indent s") (auto simp add: match_block_def)
  let ?l = "match_dot_star (drop k s)"
  let ?r = "drop (k + ?l) s"
  from assms k have n: "n = k + ?l + match_more_lines ?r"
    by (simp add: match_block_def Let_def)
  from match_indent_Some [OF k] have k1: "1 \<le> k" "k \<le> length s" "hd s = 0x20 \<or> hd s = 0x09"
    by simp_all
  from match_dot_star_bounds [of "drop k s"]
  have l: "?l \<le> length s - k" and e: "?r = [] \<or> hd ?r = NEWLINE"
    by (simp_all add: add.commute)
  from match_more_lines_bounds [of ?r] e
  have m: "match_more_lines ?r \<le> length ?r"
    "drop (match_more_lines ?r) ?r = [] \<or> hd (drop (match_more_lines ?r) ?r) = NEWLINE"
    by auto
  have "drop n s = drop (match_more_lines ?r) ?r"
    unfolding n by (simp add: add.commute add.left_commute)
  moreover have "n \<le> length s" unfolding n using k1(2) l m(1) by simp
  ultimately show ?thesis using k1 m(2) n by simp
qed

lemma match_indented_bounds:
  assumes "match_indented b s = Some n"
  shows "1 \<le> n \<and> n \<le> length s \<and> (hd s = 0x20 \<or> hd s = 0x09 \<or> hd s = NEWLINE) \<and>
         (drop n s = [] \<or> hd (drop n s) = NEWLINE)"
proof (cases "b \<and> match_block s \<noteq> None")
  case True
  with assms have "match_block s = Some n" by (auto simp add: match_indented_def)
  from match_block_bounds [OF this] show ?thesis by auto
next
  case False
  with assms obtain c cs n' where s: "s = c # cs" "c = NEWLINE" "match_block cs = Some n'"
    "n = Suc n'"
    by (cases s) (auto simp add: match_indented_def split: if_splits option.splits)
  from match_block_bounds [OF s(3)] s show ?thesis by simp
qed

lemma good_match_fenced: "good_pat match_fenced"
  unfolding good_pat_def
proof (intro allI impI)
  fix b s n assume "match_fenced b s = Some n"
  from match_fenced_bounds [OF this]
  show "1 \<le> n \<and> n \<le> length s \<and> hd s \<notin> placeholder_chars \<and>
        (last (take n s) \<notin> placeholder_chars \<or> drop n s = [] \<or>
         hd (drop n s) \<notin> placeholder_chars)"
    by (simp add: placeholder_chars_iff BACKTICK_def)
qed

lemma good_match_inline: "good_pat match_inline"
  unfolding good_pat_def
proof (intro allI impI)
  fix b s n assume "match_inline b s = Some n"
  from match_inline_bounds [OF this]
  show "1 \<le> n \<and> n \<le> length s \<and> hd s \<notin> placeholder_chars \<and>
        (last (take n s) \<notin> placeholder_chars \<or> drop n s = [] \<or>
         hd (drop n s) \<notin> placeholder_chars)"
    by (simp add: placeholder_chars_iff BACKTICK_def)
qed

lemma good_match_indented: "good_pat match_indented"
  unfolding good_pat_def
proof (intro allI impI)
  fix b s n assume m: "match_indented b s = Some n"
  have c: "0x20 \<notin> placeholder_chars" "0x09 \<notin> placeholder_chars"
    "NEWLINE \<notin> placeholder_chars"
    by (simp_all add: placeholder_chars_iff NEWLINE_def)
  from match_indented_bounds [OF m]
  have "1 \<le> n" "n \<le> length s" "hd s = 0x20 \<or> hd s = 0x09 \<or> hd s = NEWLINE"
    "drop n s = [] \<or> hd (drop n s) = NEWLINE" by blast+
  moreover from this(3) c have "hd s \<notin> placeholder_chars" by metis
  moreover from \<open>drop n s = [] \<or> hd (drop n s) = NEWLINE\<close> c(3)
  have "drop n s = [] \<or> hd (drop n s) \<notin> placeholder_chars" by metis
  ultimately
  show "1 \<le> n \<and> n \<le> length s \<and> hd s \<notin> placeholder_chars \<and>
        (last (take n s) \<notin> placeholder_chars \<or> drop n s = [] \<or>
         hd (drop n s) \<notin> placeholder_chars)"
    by blast
qed

lemma flat_append: "flat (ts @ us) = flat ts @ flat us"
  by (induction ts rule: flat.induct) simp_all

lemma orig_append: "orig bs (ts @ us) = orig bs ts @ orig bs us"
  by (induction bs ts rule: orig.induct) simp_all

lemma plain_orig: "plain ts \<Longrightarrow> orig bs ts = flat ts"
  by (induction ts rule: flat.induct) (auto simp add: plain_def)

lemma str_in_prefix: "prefix p s \<Longrightarrow> str_in p s"
  using find_sub_prefix [of p 0 s] by (auto simp add: str_in_def)

lemma str_in_Cons: "str_in p s \<Longrightarrow> str_in p (c # s)"
  by (auto simp add: str_in_def)

lemma str_in_append: "str_in p s \<Longrightarrow> str_in p (r @ s)"
  by (induction r) (simp_all add: str_in_Cons)

lemma str_in_append_left: "str_in p s \<Longrightarrow> str_in p (s @ r)"
proof -
  assume "str_in p s"
  then obtain j where "find_sub p s = Some j" by (auto simp add: str_in_def)
  from find_sub_Some [OF this] have "prefix p (drop j s)" "j \<le> length s" by simp_all
  then have "prefix p (drop j (s @ r))" by (auto simp add: prefix_def)
  from find_sub_prefix [OF this] show ?thesis by (auto simp add: str_in_def)
qed

lemma prefix_placeholder: "prefix PLACEHOLDER_PREFIX (placeholder_for i @ z)"
  by (simp add: placeholder_for_def)

text \<open>
  A piece of a masked text that begins at a token, holds no placeholder prefix and does
  not end inside a placeholder is made of plain characters only.
\<close>

lemma cover_plain:
  assumes "flat ts = w @ v" "\<not> str_in PLACEHOLDER_PREFIX w"
    and "w = [] \<or> last w \<notin> placeholder_chars \<or> v = [] \<or> hd v \<notin> placeholder_chars"
  shows "\<exists>j. w = flat (take j ts) \<and> v = flat (drop j ts) \<and> plain (take j ts)"
  using assms
proof (induction ts arbitrary: w rule: flat.induct)
  case 1
  then show ?case by (simp add: plain_def)
next
  case (2 c ts)
  show ?case
  proof (cases w)
    case Nil
    with "2.prems" have "w = flat (take 0 (Ch c # ts)) \<and> v = flat (drop 0 (Ch c # ts)) \<and>
        plain (take 0 (Ch c # ts))" by (simp add: plain_def)
    then show ?thesis by blast
  next
    case (Cons x w')
    with "2.prems"(1) have x: "x = c" and f: "flat ts = w' @ v" by simp_all
    have n: "\<not> str_in PLACEHOLDER_PREFIX w'"
      using "2.prems"(2) Cons str_in_Cons by blast
    have e: "w' = [] \<or> last w' \<notin> placeholder_chars \<or> v = [] \<or> hd v \<notin> placeholder_chars"
      using "2.prems"(3) Cons by (cases w') auto
    from "2.IH" [OF f n e] obtain j where
      j: "w' = flat (take j ts)" "v = flat (drop j ts)" "plain (take j ts)" by blast
    then have "w = flat (take (Suc j) (Ch c # ts)) \<and> v = flat (drop (Suc j) (Ch c # ts)) \<and>
        plain (take (Suc j) (Ch c # ts))"
      using Cons x by (simp add: plain_def)
    then show ?thesis by blast
  qed
next
  case (3 i ts)
  show ?case
  proof (cases w)
    case Nil
    with "3.prems" have "w = flat (take 0 (Hole i # ts)) \<and> v = flat (drop 0 (Hole i # ts)) \<and>
        plain (take 0 (Hole i # ts))" by (simp add: plain_def)
    then show ?thesis by blast
  next
    case (Cons x w')
    let ?ph = "placeholder_for i"
    from "3.prems"(1) have eq: "?ph @ flat ts = w @ v" by simp
    have False
    proof (cases "length ?ph \<le> length w")
      case True
      with eq have "?ph = take (length ?ph) w"
        by (simp add: append_eq_append_conv_if)
      then have "w = ?ph @ drop (length ?ph) w"
        by (metis append_take_drop_id)
      then obtain z where "w = ?ph @ z" ..
      then have "str_in PLACEHOLDER_PREFIX w"
        using prefix_placeholder [of i z] by (simp add: str_in_prefix)
      with "3.prems"(2) show False by simp
    next
      case False
      then have l: "length w < length ?ph" by simp
      with eq have w: "w = take (length w) ?ph" and v: "v = drop (length w) ?ph @ flat ts"
        by (simp_all add: append_eq_append_conv_if)
      have "set (take (length w) ?ph) \<subseteq> set ?ph" by (rule set_take_subset)
      with w have "set w \<subseteq> placeholder_chars"
        using set_placeholder_for [of i] by simp
      moreover have "last w \<in> set w" using Cons by simp
      ultimately have "last w \<in> placeholder_chars" by blast
      have "v \<noteq> []" using v l by simp
      have "hd v = ?ph ! length w" using v l by (simp add: hd_append hd_drop_conv_nth)
      moreover have "?ph ! length w \<in> set ?ph" using l by simp
      ultimately have "hd v \<in> placeholder_chars"
        using set_placeholder_for [of i] by auto
      with \<open>last w \<in> placeholder_chars\<close> \<open>v \<noteq> []\<close>
      show False using "3.prems"(3) Cons by simp
    qed
    then show ?thesis ..
  qed
qed

lemma re_sub_blocks_extend:
  "re_sub pat b s st = (out, st') \<Longrightarrow> \<exists>ext. code_blocks st' = code_blocks st @ ext"
proof (induction "length s" arbitrary: s b st out st' rule: less_induct)
  case less
  show ?case
  proof (cases s)
    case Nil
    with less.prems show ?thesis by simp
  next
    case (Cons c cs)
    show ?thesis
    proof (cases "pat b (c # cs)")
      case None
      obtain out1 st1 where r: "re_sub pat False cs st = (out1, st1)" by force
      with less.prems Cons None have "st' = st1" by simp
      with less.hyps [OF _ r] Cons show ?thesis by simp
    next
      case (Some n)
      let ?st1 = "snd (create_placeholder (take n (c # cs)) st)"
      obtain out1 st1 where r: "re_sub pat False (drop (n - 1) cs) ?st1 = (out1, st1)" by force
      with less.prems Cons Some have "st' = st1" by (simp add: create_placeholder_eq)
      moreover have "length (drop (n - 1) cs) < length s" using Cons by simp
      from less.hyps [OF this r] obtain ext where
        "code_blocks st1 = code_blocks ?st1 @ ext" by blast
      ultimately show ?thesis by (simp add: create_placeholder_eq)
    qed
  qed
qed

lemma orig_extend:
  "holes_below (length bs) ts \<Longrightarrow> orig (bs @ ext) ts = orig bs ts"
  by (induction bs ts rule: orig.induct) (auto simp add: holes_below_def nth_append)

lemma holes_below_drop: "holes_below n ts \<Longrightarrow> holes_below n (drop j ts)"
  by (auto simp add: holes_below_def dest: in_set_dropD)

lemma holes_below_mono: "holes_below n ts \<Longrightarrow> n \<le> m \<Longrightarrow> holes_below m ts"
  by (auto simp add: holes_below_def)

lemma re_sub_skip:
  assumes "good_pat pat" "x \<in> placeholder_chars" "re_sub pat b (x # rest) st = (out, st')"
  shows "\<exists>out1. re_sub pat False rest st = (out1, st') \<and> out = x # out1"
proof -
  have "pat b (x # rest) = None"
  proof (cases "pat b (x # rest)")
    case (Some n)
    with assms(1) have "hd (x # rest) \<notin> placeholder_chars"
      unfolding good_pat_def by blast
    with assms(2) show ?thesis by simp
  qed simp
  with assms(3) show ?thesis by (auto split: prod.splits)
qed

lemma wf_state_create:
  assumes "wf_state st"
  shows "wf_state (snd (create_placeholder w st))"
  using assms
  by (auto simp add: wf_state_def create_placeholder_eq nth_append less_Suc_eq)

text \<open>
  One pass, read on tokens: where no block taken out holds a placeholder prefix, the
  masked text is again a sequence of characters and placeholders, and with the blocks
  put back for the placeholders it still reads as before.
\<close>

lemma pass_tokens:
  assumes "good_pat pat"
    and "\<forall>blk \<in> set (code_blocks st'). \<not> str_in PLACEHOLDER_PREFIX (content blk)"
  shows "re_sub pat b (r @ flat ts) st = (out, st') \<Longrightarrow> set r \<subseteq> placeholder_chars \<Longrightarrow>
     wf_state st \<Longrightarrow> holes_below (length (code_blocks st)) ts \<Longrightarrow>
     \<exists>ts'. out = r @ flat ts' \<and> orig (code_blocks st') ts' = orig (code_blocks st) ts \<and>
           wf_state st' \<and> holes_below (length (code_blocks st')) ts'"
proof (induction "length (r @ flat ts)" arbitrary: r ts b st out rule: less_induct)
  case less
  note run = less.prems(1) and rc = less.prems(2) and wf = less.prems(3) and hb = less.prems(4)
  show ?case
  proof (cases r)
    case (Cons x r')
    with rc have x: "x \<in> placeholder_chars" and rc': "set r' \<subseteq> placeholder_chars" by simp_all
    from run Cons have "re_sub pat b (x # (r' @ flat ts)) st = (out, st')" by simp
    from re_sub_skip [OF assms(1) x this] obtain out1 where
      o: "re_sub pat False (r' @ flat ts) st = (out1, st')" "out = x # out1" by blast
    have "length (r' @ flat ts) < length (r @ flat ts)" using Cons by simp
    from less.hyps [OF this o(1) rc' wf hb] obtain ts' where
      "out1 = r' @ flat ts'" "orig (code_blocks st') ts' = orig (code_blocks st) ts"
      "wf_state st'" "holes_below (length (code_blocks st')) ts'" by blast
    with o(2) Cons show ?thesis by auto
  next
    case Nil
    show ?thesis
    proof (cases ts)
      case ts: Nil
      with run Nil have "out = []" "st' = st" by simp_all
      with Nil ts wf hb show ?thesis by (intro exI [of _ "[]"]) simp
    next
      case ts: (Cons t ts1)
      show ?thesis
      proof (cases t)
        case (Hole i)
        let ?ph = "placeholder_for i"
        obtain t where ph: "?ph = 60 # t" using placeholder_for_Cons [of i] by blast
        have x: "60 \<in> placeholder_chars" by (simp add: placeholder_chars_iff)
        have rc': "set t \<subseteq> placeholder_chars"
          using set_placeholder_for [of i] ph by simp
        from run Nil ts Hole have "re_sub pat b (60 # (t @ flat ts1)) st = (out, st')"
          by (simp add: ph)
        from re_sub_skip [OF assms(1) x this] obtain out1 where
          o: "re_sub pat False (t @ flat ts1) st = (out1, st')" "out = 60 # out1" by blast
        have lt: "length (t @ flat ts1) < length (r @ flat ts)"
          using Nil ts Hole by (simp add: ph)
        have hb1: "holes_below (length (code_blocks st)) ts1"
          using hb ts by (auto simp add: holes_below_def)
        from less.hyps [OF lt o(1) rc' wf hb1] obtain ts1' where
          r: "out1 = t @ flat ts1'" "orig (code_blocks st') ts1' = orig (code_blocks st) ts1"
          "wf_state st'" "holes_below (length (code_blocks st')) ts1'" by blast
        from re_sub_blocks_extend [OF run] obtain ext where
          ext: "code_blocks st' = code_blocks st @ ext" by blast
        have i: "i < length (code_blocks st)" using hb ts Hole by (simp add: holes_below_def)
        have "out = r @ flat (Hole i # ts1')"
          using o(2) r(1) Nil by (simp add: ph)
        moreover have "orig (code_blocks st') (Hole i # ts1') = orig (code_blocks st) ts"
          using r(2) ts Hole ext i by (simp add: nth_append)
        moreover have "holes_below (length (code_blocks st')) (Hole i # ts1')"
          using r(4) i ext by (auto simp add: holes_below_def)
        ultimately show ?thesis using r(3) by blast
      next
        case (Ch c)
        from run Nil ts Ch have run': "re_sub pat b (c # flat ts1) st = (out, st')" by simp
        have hb1: "holes_below (length (code_blocks st)) ts1"
          using hb ts by (auto simp add: holes_below_def)
        show ?thesis
        proof (cases "pat b (c # flat ts1)")
          case None
          obtain out1 st1 where o: "re_sub pat False (flat ts1) st = (out1, st1)" by force
          with run' None have e: "out = c # out1" "st1 = st'" by simp_all
          have lt: "length ([] @ flat ts1) < length (r @ flat ts)" using Nil ts Ch by simp
          from o e have "re_sub pat False ([] @ flat ts1) st = (out1, st')" by simp
          from less.hyps [OF lt this _ wf hb1] obtain ts1' where
            r: "out1 = flat ts1'" "orig (code_blocks st') ts1' = orig (code_blocks st) ts1"
            "wf_state st'" "holes_below (length (code_blocks st')) ts1'" by auto
          have "out = r @ flat (Ch c # ts1')" using e r(1) Nil by simp
          moreover have "orig (code_blocks st') (Ch c # ts1') = orig (code_blocks st) ts"
            using r(2) ts Ch by simp
          moreover have "holes_below (length (code_blocks st')) (Ch c # ts1')"
            using r(4) by (auto simp add: holes_below_def)
          ultimately show ?thesis using r(3) by blast
        next
          case (Some n)
          let ?s = "c # flat ts1"
          let ?w = "take n ?s"
          let ?v = "drop n ?s"
          let ?st1 = "snd (create_placeholder ?w st)"
          let ?idx = "placeholder_index st"
          let ?blk = "\<lparr> placeholder = placeholder_for ?idx, content = ?w \<rparr>"
          from assms(1) Some have n: "1 \<le> n" "n \<le> length ?s"
            and e: "last ?w \<notin> placeholder_chars \<or> ?v = [] \<or> hd ?v \<notin> placeholder_chars"
            unfolding good_pat_def by blast+
          have v: "drop (n - 1) (flat ts1) = ?v" using n(1) by (cases n) simp_all
          obtain out1 st1 where o: "re_sub pat False ?v ?st1 = (out1, st1)" by force
          with run' Some v have e1: "out = placeholder_for ?idx @ out1" "st1 = st'"
            by (simp_all add: create_placeholder_eq)
          have bs1: "code_blocks ?st1 = code_blocks st @ [?blk]"
            by (simp add: create_placeholder_eq)
          from re_sub_blocks_extend [OF o] e1(2) bs1 obtain ext where
            ext: "code_blocks st' = code_blocks st @ [?blk] @ ext" by auto
          then have "?blk \<in> set (code_blocks st')" by simp
          with assms(2) have nx: "\<not> str_in PLACEHOLDER_PREFIX ?w" by force
          have f: "flat ts = ?w @ ?v" using ts Ch by simp
          from cover_plain [OF f nx] e obtain j where
            j: "?w = flat (take j ts)" "?v = flat (drop j ts)" "plain (take j ts)" by blast
          have idx: "?idx = length (code_blocks st)" using wf by (simp add: wf_state_def)
          have wf1: "wf_state ?st1" using wf by (rule wf_state_create)
          have hb2: "holes_below (length (code_blocks ?st1)) (drop j ts)"
            using hb bs1 by (auto intro: holes_below_drop holes_below_mono)
          have lt: "length ([] @ flat (drop j ts)) < length (r @ flat ts)"
            using Nil j(2) [symmetric] n ts Ch by simp
          from o e1(2) j(2) have "re_sub pat False ([] @ flat (drop j ts)) ?st1 = (out1, st')"
            by simp
          from less.hyps [OF lt this _ wf1 hb2] obtain ts2 where
            r: "out1 = flat ts2" "orig (code_blocks st') ts2 = orig (code_blocks ?st1) (drop j ts)"
            "wf_state st'" "holes_below (length (code_blocks st')) ts2" by auto
          have "orig (code_blocks ?st1) (drop j ts) = orig (code_blocks st) (drop j ts)"
            unfolding bs1 using hb by (intro orig_extend holes_below_drop)
          moreover have "?w = orig (code_blocks st) (take j ts)"
            using j(1,3) by (simp add: plain_orig)
          moreover have "code_blocks st' ! ?idx = ?blk"
            using ext idx by (simp add: nth_append)
          moreover have "orig (code_blocks st) ts =
              orig (code_blocks st) (take j ts) @ orig (code_blocks st) (drop j ts)"
            using orig_append [of "code_blocks st" "take j ts" "drop j ts"] by simp
          ultimately have "orig (code_blocks st') (Hole ?idx # ts2) = orig (code_blocks st) ts"
            using r(2) by simp
          moreover have "out = r @ flat (Hole ?idx # ts2)" using e1(1) r(1) Nil by simp
          moreover have "holes_below (length (code_blocks st')) (Hole ?idx # ts2)"
            using r(4) ext idx by (auto simp add: holes_below_def)
          ultimately show ?thesis using r(3) by blast
        qed
      qed
    qed
  qed
qed

lemma str_of_nat_small: "n < 10 \<Longrightarrow> str_of_nat n = [48 + n]"
  by (subst str_of_nat.simps) simp

lemma str_of_nat_large:
  "\<not> n < 10 \<Longrightarrow> str_of_nat n = str_of_nat (n div 10) @ [48 + n mod 10]"
  by (subst str_of_nat.simps) simp

lemma str_of_nat_nonempty: "str_of_nat n \<noteq> []"
  by (cases "n < 10") (simp_all add: str_of_nat_small str_of_nat_large)

lemma str_of_nat_inj: "str_of_nat m = str_of_nat n \<Longrightarrow> m = n"
proof (induction m arbitrary: n rule: str_of_nat.induct)
  case (1 m)
  show ?case
  proof (cases "m < 10")
    case True
    show ?thesis
    proof (cases "n < 10")
      case n: True
      with True "1.prems" show ?thesis by (simp add: str_of_nat_small)
    next
      case n: False
      with True "1.prems" have "str_of_nat (n div 10) = []"
        by (simp add: str_of_nat_small str_of_nat_large)
      with str_of_nat_nonempty show ?thesis by blast
    qed
  next
    case False
    show ?thesis
    proof (cases "n < 10")
      case n: True
      with False "1.prems" have "str_of_nat (m div 10) = []"
        by (simp add: str_of_nat_small str_of_nat_large)
      with str_of_nat_nonempty show ?thesis by blast
    next
      case n: False
      with False "1.prems" have e: "str_of_nat (m div 10) = str_of_nat (n div 10)"
        "m mod 10 = n mod 10"
        by (simp_all add: str_of_nat_large)
      from "1.IH" [OF False e(1)] have "m div 10 = n div 10" .
      with e(2) show ?thesis by (metis div_mult_mod_eq)
    qed
  qed
qed

lemma terminated_prefix:
  "t \<notin> set a \<Longrightarrow> t \<notin> set b \<Longrightarrow> prefix (a @ t # x) (b @ t # y) \<Longrightarrow> a = b"
proof (induction a arbitrary: b)
  case Nil
  then show ?case by (cases b) auto
next
  case (Cons c a)
  then show ?case by (cases b) auto
qed

lemma placeholder_for_distinct:
  assumes "prefix (placeholder_for i) (placeholder_for k @ z)"
  shows "i = k"
proof -
  have d: "62 \<notin> set (str_of_nat i)" "62 \<notin> set (str_of_nat k)"
    using set_str_of_nat [of i] set_str_of_nat [of k] by auto
  from assms have "prefix (str_of_nat i @ 62 # [62]) (str_of_nat k @ 62 # (62 # z))"
    by (simp add: placeholder_for_def PLACEHOLDER_SUFFIX_eq)
  from terminated_prefix [OF d this] show ?thesis by (rule str_of_nat_inj)
qed

lemma placeholder_tail_no_lt: "60 \<notin> set (drop 2 (placeholder_for k))"
  using set_str_of_nat [of k]
  by (auto simp add: placeholder_for_def PLACEHOLDER_PREFIX_eq PLACEHOLDER_SUFFIX_eq)

lemma prefix_PLACEHOLDER_hd: "prefix PLACEHOLDER_PREFIX s \<Longrightarrow> s \<noteq> [] \<and> hd s = 60"
  by (cases s) (simp_all add: PLACEHOLDER_PREFIX_eq)

lemma no_prefix_inside_placeholder:
  assumes "1 \<le> q" "q < length (placeholder_for k)"
  shows "\<not> prefix PLACEHOLDER_PREFIX (drop q (placeholder_for k) @ z)"
proof (cases "q = 1")
  case True
  then show ?thesis
    by (simp add: placeholder_for_def PLACEHOLDER_PREFIX_eq)
next
  case False
  with assms(1) have q: "2 \<le> q" by simp
  let ?d = "drop q (placeholder_for k)"
  have ne: "?d \<noteq> []" using assms(2) by simp
  have "q - 2 + 2 = q" using q by simp
  then have "?d = drop (q - 2) (drop 2 (placeholder_for k))"
    by (simp only: drop_drop)
  then have "set ?d \<subseteq> set (drop 2 (placeholder_for k))"
    by (metis set_drop_subset)
  moreover have "hd ?d \<in> set ?d" using ne by simp
  ultimately have "hd ?d \<noteq> 60" using placeholder_tail_no_lt [of k] by auto
  then have "hd (?d @ z) \<noteq> 60" using ne by simp
  then show ?thesis using prefix_PLACEHOLDER_hd by blast
qed

lemma placeholder_for_nonempty: "placeholder_for i \<noteq> []"
  by (simp add: placeholder_for_def PLACEHOLDER_PREFIX_eq)

lemma prefix_placeholder_for:
  "prefix (placeholder_for i) s \<Longrightarrow> prefix PLACEHOLDER_PREFIX s"
  by (auto simp add: placeholder_for_def prefix_def)

lemma str_replace_skip:
  assumes "old \<noteq> []"
  shows "(\<And>q. q < length u \<Longrightarrow> \<not> prefix old (drop q u @ z)) \<Longrightarrow>
     str_replace old new (u @ z) = u @ str_replace old new z"
proof (induction u)
  case Nil
  then show ?case by simp
next
  case (Cons c u)
  have "\<not> prefix old ((c # u) @ z)" using Cons.prems [of 0] by simp
  moreover have "str_replace old new (u @ z) = u @ str_replace old new z"
  proof (rule Cons.IH)
    fix q assume "q < length u"
    then show "\<not> prefix old (drop q u @ z)" using Cons.prems [of "Suc q"] by simp
  qed
  ultimately show ?case using assms by simp
qed

lemma str_replace_here:
  assumes "old \<noteq> []"
  shows "str_replace old new (old @ z) = new @ str_replace old new z"
proof -
  obtain c cs where "old = c # cs" using assms by (cases old) auto
  then show ?thesis by simp
qed

lemma str_replace_other_placeholder:
  assumes "k \<noteq> i"
  shows "str_replace (placeholder_for i) new (placeholder_for k @ z) =
         placeholder_for k @ str_replace (placeholder_for i) new z"
proof (rule str_replace_skip [OF placeholder_for_nonempty])
  fix q assume q: "q < length (placeholder_for k)"
  show "\<not> prefix (placeholder_for i) (drop q (placeholder_for k) @ z)"
  proof (cases q)
    case 0
    with assms placeholder_for_distinct [of i k z] show ?thesis by auto
  next
    case (Suc q')
    with q no_prefix_inside_placeholder [of q k z] prefix_placeholder_for show ?thesis
      by auto
  qed
qed

lemma flat_map_Ch: "flat (map Ch s @ ts) = s @ flat ts"
  by (induction s) simp_all

lemma orig_map_Ch: "orig bs (map Ch s @ ts) = s @ orig bs ts"
  by (induction s) simp_all

lemma orig_fill: "orig bs (fill i (content (bs ! i)) ts) = orig bs ts"
  by (induction i "content (bs ! i)" ts rule: fill.induct) (simp_all add: orig_map_Ch)

lemma holes_fill: "Hole k \<in> set (fill i cont ts) \<Longrightarrow> Hole k \<in> set ts \<and> k \<noteq> i"
  by (induction i cont ts rule: fill.induct) (auto split: if_splits)

lemma prefix_flat_orig:
  "prefix z (flat ts) \<Longrightarrow> 60 \<notin> set z \<Longrightarrow> prefix z (orig bs ts)"
proof (induction z arbitrary: ts)
  case Nil
  then show ?case by simp
next
  case (Cons x z)
  show ?case
  proof (cases ts)
    case Nil
    with Cons.prems show ?thesis by simp
  next
    case ts: (Cons t ts')
    show ?thesis
    proof (cases t)
      case (Ch c)
      with Cons.prems ts have "x = c" "prefix z (flat ts')" "60 \<notin> set z" by simp_all
      with Cons.IH [of ts'] ts Ch show ?thesis by simp
    next
      case (Hole i)
      obtain u where "placeholder_for i = 60 # u" using placeholder_for_Cons [of i] by blast
      with Cons.prems ts Hole have "x = 60" by simp
      with Cons.prems(2) show ?thesis by simp
    qed
  qed
qed

lemma prefix_at_char:
  assumes "prefix PLACEHOLDER_PREFIX (flat (Ch c # ts))"
  shows "prefix PLACEHOLDER_PREFIX (orig bs (Ch c # ts))"
proof -
  let ?z = "drop 2 PLACEHOLDER_PREFIX"
  have x: "PLACEHOLDER_PREFIX = 60 # 60 # ?z" by (simp add: PLACEHOLDER_PREFIX_eq)
  have z: "60 \<notin> set ?z" "hd ?z = 83" "?z \<noteq> []" by (simp_all add: PLACEHOLDER_PREFIX_eq)
  from assms have c: "c = 60" and p: "prefix (60 # ?z) (flat ts)"
    by (subst (asm) x, simp)+
  show ?thesis
  proof (cases ts)
    case Nil
    with p show ?thesis by simp
  next
    case ts: (Cons t ts')
    show ?thesis
    proof (cases t)
      case (Ch c')
      with p ts have "c' = 60" "prefix ?z (flat ts')" by simp_all
      with prefix_flat_orig [OF _ z(1), of ts' bs] have "prefix ?z (orig bs ts')" by simp
      then have "prefix (60 # 60 # ?z) (orig bs (Ch c # ts))"
        using c ts Ch \<open>c' = 60\<close> by simp
      then show ?thesis by (subst x)
    next
      case (Hole i)
      obtain u where "placeholder_for i = 60 # 60 # u"
        using placeholder_for_Cons [of i] by blast
      with p ts Hole have "prefix ?z (60 # u @ flat ts')" by simp
      with z(2,3) have False by (cases ?z) auto
      then show ?thesis ..
    qed
  qed
qed

lemma str_in_suffix: "\<not> str_in p (r @ s) \<Longrightarrow> \<not> str_in p s"
  using str_in_append by blast

text \<open>
  Replacing one placeholder in a masked text whose restored form holds no placeholder
  prefix fills exactly the holes with that number.
\<close>

lemma str_replace_fill:
  "\<not> str_in PLACEHOLDER_PREFIX (orig bs ts) \<Longrightarrow>
   str_replace (placeholder_for i) cont (flat ts) = flat (fill i cont ts)"
proof (induction ts rule: flat.induct)
  case 1
  show ?case using placeholder_for_nonempty [of i] by simp
next
  case (2 c ts)
  from "2.prems" have n: "\<not> str_in PLACEHOLDER_PREFIX (orig bs ts)"
    using str_in_Cons by auto
  have "\<not> prefix (placeholder_for i) (c # flat ts)"
  proof
    assume "prefix (placeholder_for i) (c # flat ts)"
    then have "prefix PLACEHOLDER_PREFIX (flat (Ch c # ts))"
      using prefix_placeholder_for by simp
    from prefix_at_char [OF this, of bs] have "str_in PLACEHOLDER_PREFIX (orig bs (Ch c # ts))"
      by (rule str_in_prefix)
    with "2.prems" show False by simp
  qed
  with "2.IH" [OF n] placeholder_for_nonempty [of i] show ?case by simp
next
  case (3 k ts)
  from "3.prems" have n: "\<not> str_in PLACEHOLDER_PREFIX (orig bs ts)"
    using str_in_append by auto
  show ?case
  proof (cases "k = i")
    case True
    then show ?thesis
      using "3.IH" [OF n] str_replace_here [OF placeholder_for_nonempty, of i cont "flat ts"]
      by (simp add: flat_map_Ch)
  next
    case False
    then show ?thesis
      using "3.IH" [OF n] str_replace_other_placeholder [of k i cont "flat ts"] by simp
  qed
qed

lemma restore_tokens:
  assumes "\<forall>i<length bs. placeholder (bs ! i) = placeholder_for i"
  shows "n = length bs - i \<Longrightarrow> i \<le> length bs \<Longrightarrow>
     (\<forall>k. Hole k \<in> set ts \<longrightarrow> i \<le> k \<and> k < length bs) \<Longrightarrow>
     \<not> str_in PLACEHOLDER_PREFIX (orig bs ts) \<Longrightarrow>
     restore (drop i bs) (flat ts) = orig bs ts"
proof (induction n arbitrary: i ts)
  case 0
  then have "plain ts" by (auto simp add: plain_def)
  with 0 show ?case by (simp add: plain_orig)
next
  case (Suc n)
  then have i: "i < length bs" by simp
  let ?c = "content (bs ! i)"
  have d: "drop i bs = bs ! i # drop (Suc i) bs" using i by (simp add: Cons_nth_drop_Suc)
  have p: "placeholder (bs ! i) = placeholder_for i" using assms i by simp
  have "restore (drop i bs) (flat ts) = restore (drop (Suc i) bs) (flat (fill i ?c ts))"
    using str_replace_fill [OF Suc.prems(4), of i ?c] by (simp add: d p)
  also have "\<dots> = orig bs (fill i ?c ts)"
  proof (rule Suc.IH)
    show "n = length bs - Suc i" using Suc.prems(1) by simp
    show "Suc i \<le> length bs" using i by simp
    show "\<forall>k. Hole k \<in> set (fill i ?c ts) \<longrightarrow> Suc i \<le> k \<and> k < length bs"
      using Suc.prems(3) holes_fill [of _ i ?c ts] by (metis Suc_leI le_neq_implies_less)
    show "\<not> str_in PLACEHOLDER_PREFIX (orig bs (fill i ?c ts))"
      using Suc.prems(4) by (simp add: orig_fill)
  qed
  finally show ?case by (simp add: orig_fill)
qed

lemma flat_chars: "flat (map Ch s) = s"
  using flat_map_Ch [of s "[]"] by simp

lemma orig_chars: "orig bs (map Ch s) = s"
  using orig_map_Ch [of bs s "[]"] by simp

text \<open>Masking and restoring give the text back, placeholders apart.\<close>

lemma mask_restore:
  assumes m: "mask_text s = (out, st)"
    and h1: "\<not> str_in PLACEHOLDER_PREFIX s"
    and h2: "\<forall>blk \<in> set (code_blocks st). \<not> str_in PLACEHOLDER_PREFIX (content blk)"
  shows "restore (code_blocks st) out = s"
proof -
  let ?st0 = "\<lparr> code_blocks = [], placeholder_index = 0 \<rparr>"
  obtain p1 st1 where 1: "re_sub match_fenced True s ?st0 = (p1, st1)" by force
  obtain p2 st2 where 2: "re_sub match_inline True p1 st1 = (p2, st2)" by force
  from m 1 2 have 3: "re_sub match_indented True p2 st2 = (out, st)"
    by (simp add: mask_text_def)
  from re_sub_blocks_extend [OF 3] obtain e3 where e3: "code_blocks st = code_blocks st2 @ e3"
    by blast
  from re_sub_blocks_extend [OF 2] obtain e2 where e2: "code_blocks st2 = code_blocks st1 @ e2"
    by blast
  have h22: "\<forall>blk \<in> set (code_blocks st2). \<not> str_in PLACEHOLDER_PREFIX (content blk)"
    using h2 e3 by simp
  have h21: "\<forall>blk \<in> set (code_blocks st1). \<not> str_in PLACEHOLDER_PREFIX (content blk)"
    using h22 e2 by simp
  have wf0: "wf_state ?st0" by (simp add: wf_state_def)
  have hb0: "holes_below (length (code_blocks ?st0)) (map Ch s)"
    by (auto simp add: holes_below_def)
  from 1 have "re_sub match_fenced True ([] @ flat (map Ch s)) ?st0 = (p1, st1)"
    by (simp add: flat_chars)
  from pass_tokens [OF good_match_fenced h21 this _ wf0 hb0] obtain ts1 where
    t1: "p1 = flat ts1" "orig (code_blocks st1) ts1 = s" "wf_state st1"
    "holes_below (length (code_blocks st1)) ts1" by (auto simp add: orig_chars)
  from 2 t1(1) have "re_sub match_inline True ([] @ flat ts1) st1 = (p2, st2)" by simp
  from pass_tokens [OF good_match_inline h22 this _ t1(3,4)] obtain ts2 where
    t2: "p2 = flat ts2" "orig (code_blocks st2) ts2 = s" "wf_state st2"
    "holes_below (length (code_blocks st2)) ts2" using t1(2) by auto
  from 3 t2(1) have "re_sub match_indented True ([] @ flat ts2) st2 = (out, st)" by simp
  from pass_tokens [OF good_match_indented h2 this _ t2(3,4)] obtain ts3 where
    t3: "out = flat ts3" "orig (code_blocks st) ts3 = s" "wf_state st"
    "holes_below (length (code_blocks st)) ts3" using t2(2) by auto
  have "restore (drop 0 (code_blocks st)) (flat ts3) = orig (code_blocks st) ts3"
  proof (rule restore_tokens [OF _ refl])
    show "\<forall>i<length (code_blocks st). placeholder (code_blocks st ! i) = placeholder_for i"
      using t3(3) by (simp add: wf_state_def)
    show "\<forall>k. Hole k \<in> set ts3 \<longrightarrow> 0 \<le> k \<and> k < length (code_blocks st)"
      using t3(4) by (simp add: holes_below_def)
    show "\<not> str_in PLACEHOLDER_PREFIX (orig (code_blocks st) ts3)"
      using h1 t3(2) by simp
  qed simp
  with t3 show ?thesis by simp
qed

lemma pipeline_quotes_protected:
  assumes "\<not> str_in PLACEHOLDER_PREFIX s"
    and "\<forall>blk \<in> set (code_blocks (snd (mask_text s))). \<not> str_in PLACEHOLDER_PREFIX (content blk)"
    and "0x22 \<notin> set (fst (mask_text s))" "0x27 \<notin> set (fst (mask_text s))"
  shows "pipeline s = Inr s"
proof -
  obtain out st where m: "mask_text s = (out, st)" by force
  with assms(3,4) have "convert_to_smart_quotes out = Inr out"
    by (intro convert_no_quotes) simp_all
  moreover have "restore (code_blocks st) out = s"
    using mask_restore [OF m assms(1)] assms(2) m by simp
  ultimately show ?thesis using m by (simp add: pipeline_def)
qed

lemma short_no_prefix: "length s < 26 \<Longrightarrow> \<not> str_in PLACEHOLDER_PREFIX s"
proof
  assume l: "length s < 26" and "str_in PLACEHOLDER_PREFIX s"
  then obtain j where "find_sub PLACEHOLDER_PREFIX s = Some j" by (auto simp add: str_in_def)
  from find_sub_Some [OF this] have "prefix PLACEHOLDER_PREFIX (drop j s)" by simp
  then have "length PLACEHOLDER_PREFIX \<le> length (drop j s)" by (rule prefix_length_le)
  with l show False by (simp add: PLACEHOLDER_PREFIX_eq)
qed

section \<open>The claims about the Quote Director\<close>

text \<open>
  Claim C1. At every position \<open>i\<close> of every input, \<open>convert_to_smart_quotes\<close>
  returns the character that the per-character rules of the specification give for the
  previous character (none at \<open>i = 0\<close>), the character itself, the next character
  (none at the end) and the flag \<open>i = 0\<close>; the output is as long as the input.
\<close>

theorem director_per_character:
  "i < length text \<Longrightarrow>
   \<exists>out. convert_to_smart_quotes text = Inr out \<and> length out = length text \<and>
         out ! i = spec_convert (spec_prev text i) (text ! i) (spec_next text i) (i = 0)"
  by (simp add: convert_to_smart_quotes_eq converted_at_spec)

theorem director_per_character_witness:
  "2 < length (ustr ''it's'') \<and>
   (\<exists>out. convert_to_smart_quotes (ustr ''it's'') = Inr out \<and> out ! 2 = 0x2019)"
  using director_per_character [of 2 "ustr ''it's''"]
  by (auto simp add: ustr_def spec_convert_def spec_prev_def spec_next_def spec_ascii_letter_def)

text \<open>
  Claim C2. The output of \<open>convert_to_smart_quotes\<close> holds neither the straight double
  quote (U+0022) nor the straight single quote (U+0027), whatever the input.
\<close>

theorem director_no_straight_quotes:
  "\<exists>out. convert_to_smart_quotes text = Inr out \<and> 0x22 \<notin> set out \<and> 0x27 \<notin> set out"
  using converted_at_not_straight [of "text"]
  by (auto simp add: convert_to_smart_quotes_eq)

text \<open>
  Claim C3. The output of \<open>convert_to_smart_quotes\<close> is as long as the input, and every
  character that is not a straight quote stands unchanged at its position.
\<close>

theorem director_preserves_positions:
  "\<exists>out. convert_to_smart_quotes text = Inr out \<and> length out = length text \<and>
         (\<forall>i<length text. text ! i \<noteq> 0x22 \<and> text ! i \<noteq> 0x27 \<longrightarrow> out ! i = text ! i)"
  by (simp add: convert_to_smart_quotes_eq converted_at_other)

theorem director_preserves_positions_witness:
  "\<exists>out. convert_to_smart_quotes (ustr ''(\"a\")'') = Inr out \<and> length out = 5 \<and>
         out ! 0 = 0x28 \<and> out ! 2 = 0x61 \<and> out ! 4 = 0x29"
  using director_preserves_positions [of "ustr ''(\"a\")''"]
  by (auto simp add: ustr_def)

text \<open>
  Claim C4. On a text with neither straight quote, \<open>convert_to_smart_quotes\<close> and
  \<open>smart_quote_markdown\<close> both return the text unchanged.
\<close>

theorem identity_without_quotes:
  "0x22 \<notin> set text \<Longrightarrow> 0x27 \<notin> set text \<Longrightarrow>
   convert_to_smart_quotes text = Inr text \<and> smart_quote_markdown text = Inr text"
  by (simp add: convert_no_quotes smart_quote_markdown_def has_straight_quotes_iff)

theorem identity_without_quotes_witness:
  "0x22 \<notin> set (ustr ''No quotes here'') \<and> 0x27 \<notin> set (ustr ''No quotes here'') \<and>
   convert_to_smart_quotes (ustr ''No quotes here'') = Inr (ustr ''No quotes here'') \<and>
   smart_quote_markdown (ustr ''No quotes here'') = Inr (ustr ''No quotes here'')"
  using identity_without_quotes [of "ustr ''No quotes here''"]
  by (simp add: ustr_def)

text \<open>
  Claim C9. Both public functions are functions of their argument alone: the placeholder
  counter and the list of blocks start from fixed values inside each call, and nothing
  else is read. For the Director, the character returned for a position depends only on
  the character there, its two neighbours (or their absence) and whether the position is
  the first: two positions, in the same or in different texts, that agree on these get
  the same character.
\<close>

theorem director_window:
  assumes "i < length s" "j < length t"
    and "s ! i = t ! j" "(i = 0) = (j = 0)" "0 < i \<longrightarrow> s ! (i - 1) = t ! (j - 1)"
    and "(i + 1 < length s) = (j + 1 < length t)"
    and "i + 1 < length s \<longrightarrow> s ! (i + 1) = t ! (j + 1)"
  shows "\<exists>out out'. convert_to_smart_quotes s = Inr out \<and> convert_to_smart_quotes t = Inr out' \<and>
           out ! i = out' ! j"
  using assms converted_at_window [of s i t j]
  by (simp add: convert_to_smart_quotes_eq)

theorem director_window_witness:
  "\<exists>out out'. convert_to_smart_quotes (ustr ''a'b'') = Inr out \<and>
       convert_to_smart_quotes (ustr ''(\"xa'bz\")'') = Inr out' \<and> out ! 1 = out' ! 4"
  using director_window [of 1 "ustr ''a'b''" 4 "ustr ''(\"xa'bz\")''"]
  by (simp add: ustr_def)

text \<open>
  Claim C10. \<open>convert_to_smart_quotes\<close> is idempotent: applied to its own output, it
  returns that output.
\<close>

theorem director_idempotent:
  "\<exists>out. convert_to_smart_quotes text = Inr out \<and> convert_to_smart_quotes out = Inr out"
proof -
  let ?out = "map (converted_at text) [0..<length text]"
  have "0x22 \<notin> set ?out" "0x27 \<notin> set ?out"
    using converted_at_not_straight [of "text"] by auto
  then have "convert_to_smart_quotes ?out = Inr ?out"
    by (rule convert_no_quotes)
  then show ?thesis by (simp add: convert_to_smart_quotes_eq)
qed

section \<open>The claims about the Markdown Shield\<close>

text \<open>
  Claim C5, as amended. A text that is one fenced code block (three backticks, a body,
  three backticks, the closing fence being the first run of three backticks behind the
  opening one) is returned unchanged by \<open>smart_quote_markdown\<close>, whatever straight
  quotes the body holds. More generally, a text is returned unchanged when all its
  straight quotes lie in protected regions (none is left in the masked text; so it is
  when the text is made of protected regions only), provided the placeholder prefix does
  not occur in the text and no block taken out holds a placeholder (no protected region
  lies inside one that a later pass takes out).
\<close>

theorem protected_text_unchanged:
  "(find_sub (replicate 3 BACKTICK) (body @ replicate 3 BACKTICK) = Some (length body) \<longrightarrow>
      smart_quote_markdown (replicate 3 BACKTICK @ body @ replicate 3 BACKTICK) =
        Inr (replicate 3 BACKTICK @ body @ replicate 3 BACKTICK)) \<and>
   (\<not> str_in PLACEHOLDER_PREFIX text \<and>
    (\<forall>blk \<in> set (code_blocks (snd (mask_text text))).
        \<not> str_in PLACEHOLDER_PREFIX (content blk)) \<and>
    0x22 \<notin> set (fst (mask_text text)) \<and> 0x27 \<notin> set (fst (mask_text text)) \<longrightarrow>
      smart_quote_markdown text = Inr text)"
proof (intro conjI impI)
  assume "find_sub (replicate 3 BACKTICK) (body @ replicate 3 BACKTICK) = Some (length body)"
  from single_fenced_block [OF match_fenced_whole [OF this]]
  show "smart_quote_markdown (replicate 3 BACKTICK @ body @ replicate 3 BACKTICK) =
        Inr (replicate 3 BACKTICK @ body @ replicate 3 BACKTICK)"
    by (simp add: smart_quote_markdown_def)
next
  assume "\<not> str_in PLACEHOLDER_PREFIX text \<and>
    (\<forall>blk \<in> set (code_blocks (snd (mask_text text))).
        \<not> str_in PLACEHOLDER_PREFIX (content blk)) \<and>
    0x22 \<notin> set (fst (mask_text text)) \<and> 0x27 \<notin> set (fst (mask_text text))"
  then have "pipeline text = Inr text" by (intro pipeline_quotes_protected) simp_all
  then show "smart_quote_markdown text = Inr text"
    by (simp add: smart_quote_markdown_def)
qed

lemma two_spans_mask:
  "mask_text (ustr ''`\"a\"``'b'`'') =
   (placeholder_for 0 @ placeholder_for 1,
    \<lparr> code_blocks = [\<lparr> placeholder = placeholder_for 0, content = ustr ''`\"a\"`'' \<rparr>,
                      \<lparr> placeholder = placeholder_for 1, content = ustr ''`'b'`'' \<rparr>],
      placeholder_index = 2 \<rparr>)"
  by code_simp

theorem protected_text_unchanged_witness:
  "find_sub (replicate 3 BACKTICK) ((0x0A # ustr ''code with \"quotes\"'' @ [0x0A]) @ replicate 3 BACKTICK)
     = Some (length (0x0A # ustr ''code with \"quotes\"'' @ [0x0A])) \<and>
   smart_quote_markdown (ustr ''```'' @ (0x0A # ustr ''code with \"quotes\"'' @ [0x0A]) @ ustr ''```'') =
     Inr (ustr ''```'' @ (0x0A # ustr ''code with \"quotes\"'' @ [0x0A]) @ ustr ''```'') \<and>
   has_straight_quotes (ustr ''`\"a\"``'b'`'') \<and>
   \<not> str_in PLACEHOLDER_PREFIX (ustr ''`\"a\"``'b'`'') \<and>
   fst (mask_text (ustr ''`\"a\"``'b'`'')) = placeholder_for 0 @ placeholder_for 1 \<and>
   smart_quote_markdown (ustr ''`\"a\"``'b'`'') = Inr (ustr ''`\"a\"``'b'`'')"
proof -
  have f: "find_sub (replicate 3 BACKTICK)
      ((0x0A # ustr ''code with \"quotes\"'' @ [0x0A]) @ replicate 3 BACKTICK)
     = Some (length (0x0A # ustr ''code with \"quotes\"'' @ [0x0A]))"
    by (simp add: ustr_def ticks3)
  have q: "has_straight_quotes (ustr ''`\"a\"``'b'`'')"
    by (simp add: has_straight_quotes_iff ustr_def)
  have h1: "\<not> str_in PLACEHOLDER_PREFIX (ustr ''`\"a\"``'b'`'')"
    by (rule short_no_prefix) (simp add: ustr_def)
  have h2: "\<forall>blk \<in> set (code_blocks (snd (mask_text (ustr ''`\"a\"``'b'`'')))).
        \<not> str_in PLACEHOLDER_PREFIX (content blk)"
    unfolding two_spans_mask by (simp add: short_no_prefix ustr_def)
  have h3: "0x22 \<notin> set (fst (mask_text (ustr ''`\"a\"``'b'`'')))"
    "0x27 \<notin> set (fst (mask_text (ustr ''`\"a\"``'b'`'')))"
    using placeholder_no_quotes [of 0] placeholder_no_quotes [of 1]
    by (simp_all add: two_spans_mask)
  from protected_text_unchanged [of "0x0A # ustr ''code with \"quotes\"'' @ [0x0A]"
      "ustr ''`\"a\"``'b'`''"] f h1 h2 h3
  have "smart_quote_markdown (replicate 3 BACKTICK @
          (0x0A # ustr ''code with \"quotes\"'' @ [0x0A]) @ replicate 3 BACKTICK) =
        Inr (replicate 3 BACKTICK @ (0x0A # ustr ''code with \"quotes\"'' @ [0x0A]) @
          replicate 3 BACKTICK)"
    and "smart_quote_markdown (ustr ''`\"a\"``'b'`'') = Inr (ustr ''`\"a\"``'b'`'')"
    by blast+
  moreover have "replicate 3 BACKTICK = ustr ''```''" by (simp add: ticks3 ustr_def)
  ultimately show ?thesis using f q h1 by (simp add: two_spans_mask)
qed

lemma collision_mask:
  "mask_text (ustr ''`<<SMART_QUOTES_CODE_BLOCK_1>>\"``x`'') =
   (placeholder_for 0 @ placeholder_for 1,
    \<lparr> code_blocks =
        [\<lparr> placeholder = placeholder_for 0, content = ustr ''`<<SMART_QUOTES_CODE_BLOCK_1>>\"`'' \<rparr>,
         \<lparr> placeholder = placeholder_for 1, content = ustr ''`x`'' \<rparr>],
      placeholder_index = 2 \<rparr>)"
  by code_simp

lemma collision_restore:
  "restore [\<lparr> placeholder = placeholder_for 0, content = ustr ''`<<SMART_QUOTES_CODE_BLOCK_1>>\"`'' \<rparr>,
            \<lparr> placeholder = placeholder_for 1, content = ustr ''`x`'' \<rparr>]
     (placeholder_for 0 @ placeholder_for 1) = ustr ''``x`\"``x`''"
  by code_simp

lemma nested_mask:
  "mask_text (0x09 # ustr ''`x` 'y' '') =
   (placeholder_for 1,
    \<lparr> code_blocks = [\<lparr> placeholder = placeholder_for 0, content = ustr ''`x`'' \<rparr>,
                      \<lparr> placeholder = placeholder_for 1,
                        content = 0x09 # placeholder_for 0 @ ustr '' 'y' '' \<rparr>],
      placeholder_index = 2 \<rparr>)"
  by code_simp

lemma nested_restore:
  "restore [\<lparr> placeholder = placeholder_for 0, content = ustr ''`x`'' \<rparr>,
            \<lparr> placeholder = placeholder_for 1,
              content = 0x09 # placeholder_for 0 @ ustr '' 'y' '' \<rparr>]
     (placeholder_for 1) = 0x09 # ustr ''<<SMART_QUOTES_CODE_BLOCK_0>> 'y' ''"
  by code_simp

text \<open>
  An inline span inside an indented block: the block is taken out with the placeholder of
  the span in it, and the restoration, which puts the span back first, leaves that
  placeholder in the result.
\<close>

lemma nested_block_leaks_placeholder:
  "smart_quote_markdown (0x09 # ustr ''`x` 'y' '') =
     Inr (0x09 # ustr ''<<SMART_QUOTES_CODE_BLOCK_0>> 'y' '')"
proof -
  have q: "has_straight_quotes (0x09 # ustr ''`x` 'y' '')"
    by (simp add: has_straight_quotes_iff ustr_def)
  have c: "convert_to_smart_quotes (placeholder_for 1) = Inr (placeholder_for 1)"
    by (rule convert_no_quotes [OF placeholder_no_quotes])
  have "pipeline (0x09 # ustr ''`x` 'y' '') = Inr (0x09 # ustr ''<<SMART_QUOTES_CODE_BLOCK_0>> 'y' '')"
    by (simp only: pipeline_def nested_mask prod.case c sum.case mask_state.select_convs
        nested_restore)
  then show ?thesis using q by (simp only: smart_quote_markdown_def simp_thms if_False)
qed

text \<open>
  Claim C5 as stated fails. The first text below is two inline code spans and nothing
  else: the masked text is two placeholders. The first span holds the text of the second
  placeholder, which the restoration then replaces as well. The second text is one
  indented code block; the inline span in it comes back as a placeholder.
\<close>

theorem protected_only_counterexample:
  "fst (mask_text (ustr ''`<<SMART_QUOTES_CODE_BLOCK_1>>\"``x`'')) =
     placeholder_for 0 @ placeholder_for 1 \<and>
   smart_quote_markdown (ustr ''`<<SMART_QUOTES_CODE_BLOCK_1>>\"``x`'') = Inr (ustr ''``x`\"``x`'') \<and>
   smart_quote_markdown (ustr ''`<<SMART_QUOTES_CODE_BLOCK_1>>\"``x`'') \<noteq>
     Inr (ustr ''`<<SMART_QUOTES_CODE_BLOCK_1>>\"``x`'') \<and>
   fst (mask_text (0x09 # ustr ''`x` 'y' '')) = placeholder_for 1 \<and>
   smart_quote_markdown (0x09 # ustr ''`x` 'y' '') =
     Inr (0x09 # ustr ''<<SMART_QUOTES_CODE_BLOCK_0>> 'y' '') \<and>
   smart_quote_markdown (0x09 # ustr ''`x` 'y' '') \<noteq> Inr (0x09 # ustr ''`x` 'y' '')"
proof -
  have q: "has_straight_quotes (ustr ''`<<SMART_QUOTES_CODE_BLOCK_1>>\"``x`'')"
    by (simp add: has_straight_quotes_iff ustr_def)
  have "pipeline (ustr ''`<<SMART_QUOTES_CODE_BLOCK_1>>\"``x`'') = Inr (ustr ''``x`\"``x`'')"
    by (simp only: pipeline_def collision_mask prod.case convert_placeholders sum.case
        mask_state.select_convs collision_restore)
  then have 1: "smart_quote_markdown (ustr ''`<<SMART_QUOTES_CODE_BLOCK_1>>\"``x`'') =
      Inr (ustr ''``x`\"``x`'')"
    using q by (simp only: smart_quote_markdown_def simp_thms if_False)
  have 2: "ustr ''``x`\"``x`'' \<noteq> ustr ''`<<SMART_QUOTES_CODE_BLOCK_1>>\"``x`''"
    by (simp add: ustr_def)
  have 3: "0x09 # ustr ''<<SMART_QUOTES_CODE_BLOCK_0>> 'y' '' \<noteq> 0x09 # ustr ''`x` 'y' ''"
    by (simp add: ustr_def)
  show ?thesis
    by (simp only: 1 nested_block_leaks_placeholder collision_mask nested_mask fst_conv
        sum.inject 2 3 simp_thms)
qed



text \<open>
  Claim C7, as amended. On a text without straight quotes in which the placeholder prefix
  does not occur and from which no block is taken out that holds a placeholder, the
  steps behind the early exit (masking, conversion, restoration) return what the early
  exit returns: the text.
\<close>

theorem fast_path_equals_pipeline:
  "0x22 \<notin> set text \<Longrightarrow> 0x27 \<notin> set text \<Longrightarrow> \<not> str_in PLACEHOLDER_PREFIX text \<Longrightarrow>
   \<forall>blk \<in> set (code_blocks (snd (mask_text text))). \<not> str_in PLACEHOLDER_PREFIX (content blk) \<Longrightarrow>
   pipeline text = smart_quote_markdown text"
proof -
  assume q: "0x22 \<notin> set text" "0x27 \<notin> set text" and h1: "\<not> str_in PLACEHOLDER_PREFIX text"
    and h2: "\<forall>blk \<in> set (code_blocks (snd (mask_text text))).
        \<not> str_in PLACEHOLDER_PREFIX (content blk)"
  obtain out st where m: "mask_text text = (out, st)" by force
  from mask_chars [OF m] q have "0x22 \<notin> set out" "0x27 \<notin> set out"
    by (auto simp add: placeholder_chars_iff)
  with m have "pipeline text = Inr text"
    using h1 h2 by (intro pipeline_quotes_protected) simp_all
  then show ?thesis using q by (simp add: smart_quote_markdown_def has_straight_quotes_iff)
qed

lemma code_and_prose_mask:
  "mask_text (ustr ''see `a[0]` or ```x < y```'') =
   (ustr ''see '' @ placeholder_for 1 @ ustr '' or '' @ placeholder_for 0,
    \<lparr> code_blocks = [\<lparr> placeholder = placeholder_for 0, content = ustr ''```x < y```'' \<rparr>,
                      \<lparr> placeholder = placeholder_for 1, content = ustr ''`a[0]`'' \<rparr>],
      placeholder_index = 2 \<rparr>)"
  by code_simp

theorem fast_path_equals_pipeline_witness:
  "0x22 \<notin> set (ustr ''see `a[0]` or ```x < y```'') \<and>
   0x27 \<notin> set (ustr ''see `a[0]` or ```x < y```'') \<and>
   \<not> str_in PLACEHOLDER_PREFIX (ustr ''see `a[0]` or ```x < y```'') \<and>
   length (code_blocks (snd (mask_text (ustr ''see `a[0]` or ```x < y```'')))) = 2 \<and>
   pipeline (ustr ''see `a[0]` or ```x < y```'') =
     smart_quote_markdown (ustr ''see `a[0]` or ```x < y```'') \<and>
   pipeline (ustr ''see `a[0]` or ```x < y```'') = Inr (ustr ''see `a[0]` or ```x < y```'')"
proof -
  have q: "0x22 \<notin> set (ustr ''see `a[0]` or ```x < y```'')"
    "0x27 \<notin> set (ustr ''see `a[0]` or ```x < y```'')"
    by (simp_all add: ustr_def)
  have h1: "\<not> str_in PLACEHOLDER_PREFIX (ustr ''see `a[0]` or ```x < y```'')"
    by (rule short_no_prefix) (simp add: ustr_def)
  have h2: "\<forall>blk \<in> set (code_blocks (snd (mask_text (ustr ''see `a[0]` or ```x < y```'')))).
        \<not> str_in PLACEHOLDER_PREFIX (content blk)"
    unfolding code_and_prose_mask by (simp add: short_no_prefix ustr_def)
  from fast_path_equals_pipeline [OF q h1 h2]
  have e: "pipeline (ustr ''see `a[0]` or ```x < y```'') =
     smart_quote_markdown (ustr ''see `a[0]` or ```x < y```'')" .
  moreover have "smart_quote_markdown (ustr ''see `a[0]` or ```x < y```'') =
      Inr (ustr ''see `a[0]` or ```x < y```'')"
    using q by (simp add: smart_quote_markdown_def has_straight_quotes_iff)
  ultimately show ?thesis using q h1 by (simp add: code_and_prose_mask)
qed

lemma collision2_mask:
  "mask_text (ustr ''<<SMART_QUOTES_CODE_BLOCK_0>>`a`'') =
   (placeholder_for 0 @ placeholder_for 0,
    \<lparr> code_blocks = [\<lparr> placeholder = placeholder_for 0, content = ustr ''`a`'' \<rparr>],
      placeholder_index = 1 \<rparr>)"
  by code_simp

lemma collision2_restore:
  "restore [\<lparr> placeholder = placeholder_for 0, content = ustr ''`a`'' \<rparr>]
     (placeholder_for 0 @ placeholder_for 0) = ustr ''`a``a`''"
  by code_simp

lemma nested2_mask:
  "mask_text (0x09 # ustr ''`x`'') =
   (placeholder_for 1,
    \<lparr> code_blocks = [\<lparr> placeholder = placeholder_for 0, content = ustr ''`x`'' \<rparr>,
                      \<lparr> placeholder = placeholder_for 1, content = 0x09 # placeholder_for 0 \<rparr>],
      placeholder_index = 2 \<rparr>)"
  by code_simp

lemma nested2_restore:
  "restore [\<lparr> placeholder = placeholder_for 0, content = ustr ''`x`'' \<rparr>,
            \<lparr> placeholder = placeholder_for 1, content = 0x09 # placeholder_for 0 \<rparr>]
     (placeholder_for 1) = 0x09 # ustr ''<<SMART_QUOTES_CODE_BLOCK_0>>''"
  by code_simp

text \<open>
  Claim C7 as stated fails. Neither text below has a straight quote, so the early exit
  returns it. The first holds the text of the first placeholder, which the steps behind
  the early exit would replace by the inline span \<open>`a`\<close>; the second is an indented
  block with an inline span in it, which those steps would return as a placeholder.
\<close>

theorem fast_path_pipeline_counterexample:
  "\<not> has_straight_quotes (ustr ''<<SMART_QUOTES_CODE_BLOCK_0>>`a`'') \<and>
   smart_quote_markdown (ustr ''<<SMART_QUOTES_CODE_BLOCK_0>>`a`'') =
     Inr (ustr ''<<SMART_QUOTES_CODE_BLOCK_0>>`a`'') \<and>
   pipeline (ustr ''<<SMART_QUOTES_CODE_BLOCK_0>>`a`'') = Inr (ustr ''`a``a`'') \<and>
   pipeline (ustr ''<<SMART_QUOTES_CODE_BLOCK_0>>`a`'') \<noteq>
     smart_quote_markdown (ustr ''<<SMART_QUOTES_CODE_BLOCK_0>>`a`'') \<and>
   \<not> has_straight_quotes (0x09 # ustr ''`x`'') \<and>
   smart_quote_markdown (0x09 # ustr ''`x`'') = Inr (0x09 # ustr ''`x`'') \<and>
   pipeline (0x09 # ustr ''`x`'') = Inr (0x09 # ustr ''<<SMART_QUOTES_CODE_BLOCK_0>>'') \<and>
   pipeline (0x09 # ustr ''`x`'') \<noteq> smart_quote_markdown (0x09 # ustr ''`x`'')"
proof -
  have q: "\<not> has_straight_quotes (ustr ''<<SMART_QUOTES_CODE_BLOCK_0>>`a`'')"
    by (simp add: has_straight_quotes_iff ustr_def)
  then have s: "smart_quote_markdown (ustr ''<<SMART_QUOTES_CODE_BLOCK_0>>`a`'') =
     Inr (ustr ''<<SMART_QUOTES_CODE_BLOCK_0>>`a`'')"
    by (simp only: smart_quote_markdown_def simp_thms if_True)
  have p: "pipeline (ustr ''<<SMART_QUOTES_CODE_BLOCK_0>>`a`'') = Inr (ustr ''`a``a`'')"
    by (simp only: pipeline_def collision2_mask prod.case convert_placeholders sum.case
        mask_state.select_convs collision2_restore)
  have n: "ustr ''`a``a`'' \<noteq> ustr ''<<SMART_QUOTES_CODE_BLOCK_0>>`a`''"
    by (simp add: ustr_def)
  have q': "\<not> has_straight_quotes (0x09 # ustr ''`x`'')"
    by (simp add: has_straight_quotes_iff ustr_def)
  then have s': "smart_quote_markdown (0x09 # ustr ''`x`'') = Inr (0x09 # ustr ''`x`'')"
    by (simp only: smart_quote_markdown_def simp_thms if_True)
  have c: "convert_to_smart_quotes (placeholder_for 1) = Inr (placeholder_for 1)"
    by (rule convert_no_quotes [OF placeholder_no_quotes])
  have p': "pipeline (0x09 # ustr ''`x`'') = Inr (0x09 # ustr ''<<SMART_QUOTES_CODE_BLOCK_0>>'')"
    by (simp only: pipeline_def nested2_mask prod.case c sum.case mask_state.select_convs
        nested2_restore)
  have n': "0x09 # ustr ''<<SMART_QUOTES_CODE_BLOCK_0>>'' \<noteq> 0x09 # ustr ''`x`''"
    by (simp add: ustr_def)
  show ?thesis by (simp only: q q' s s' p p' sum.inject n n' simp_thms)
qed

text \<open>
  Claim C8, as amended. Both functions return a value on every input. Where no three
  backticks follow the first three characters of a text, the fenced pass leaves the text
  as it is; where a text has at most one backtick, so does the inline pass; and a text
  with at most one backtick, no tab and no run of four spaces is converted as the
  Director converts it.
\<close>

theorem defined_output_unmatched_openers:
  "(\<exists>out. convert_to_smart_quotes text = Inr out) \<and>
   (\<exists>out. smart_quote_markdown text = Inr out) \<and>
   (find_sub (replicate 3 BACKTICK) (drop 3 s) = None \<longrightarrow>
      re_sub match_fenced b s st = (s, st)) \<and>
   (length (filter (\<lambda>c. c = BACKTICK) s) \<le> 1 \<longrightarrow> re_sub match_inline b s st = (s, st)) \<and>
   (length (filter (\<lambda>c. c = BACKTICK) text) \<le> 1 \<and> 0x09 \<notin> set text \<and>
    \<not> str_in (replicate 4 0x20) text \<longrightarrow>
      smart_quote_markdown text = convert_to_smart_quotes text)"
proof (intro conjI impI)
  show c: "\<exists>out. convert_to_smart_quotes text = Inr out"
    by (simp add: convert_to_smart_quotes_eq)
  show "\<exists>out. smart_quote_markdown text = Inr out"
  proof (cases "has_straight_quotes text")
    case False
    then show ?thesis by (simp add: smart_quote_markdown_def)
  next
    case True
    obtain out st where m: "mask_text text = (out, st)" by force
    obtain r where "convert_to_smart_quotes out = Inr r"
      by (simp add: convert_to_smart_quotes_eq)
    with True m show ?thesis by (simp add: smart_quote_markdown_def pipeline_def)
  qed
next
  assume "find_sub (replicate 3 BACKTICK) (drop 3 s) = None"
  then show "re_sub match_fenced b s st = (s, st)" by (rule fenced_unclosed)
next
  assume "length (filter (\<lambda>c. c = BACKTICK) s) \<le> 1"
  then show "re_sub match_inline b s st = (s, st)"
    by (intro re_sub_id match_inline_lone_backtick)
next
  assume a: "length (filter (\<lambda>c. c = BACKTICK) text) \<le> 1 \<and> 0x09 \<notin> set text \<and>
    \<not> str_in (replicate 4 0x20) text"
  have f: "match_fenced b' (drop k text) = None" for b' k
  proof (rule ccontr)
    assume "match_fenced b' (drop k text) \<noteq> None"
    then obtain n where "match_fenced b' (drop k text) = Some n" by auto
    from match_fenced_Some [OF this] obtain r where "drop k text = BACKTICK # BACKTICK # r"
      by (cases "drop k text"; cases "tl (drop k text)") (auto simp add: numeral_3_eq_3)
    then obtain pre where "text = pre @ BACKTICK # BACKTICK # r"
      by (metis append_take_drop_id)
    then have "2 \<le> length (filter (\<lambda>c. c = BACKTICK) text)" by simp
    with a show False by simp
  qed
  have "pipeline text = convert_to_smart_quotes text"
    using a by (intro pipeline_plain f match_inline_lone_backtick match_indent_None) simp_all
  then show "smart_quote_markdown text = convert_to_smart_quotes text"
    by (cases "has_straight_quotes text")
      (simp_all add: smart_quote_markdown_def has_straight_quotes_iff convert_no_quotes)
qed

theorem defined_output_unmatched_openers_witness:
  "find_sub (replicate 3 BACKTICK) (drop 3 (ustr ''```a \"b\"'')) = None \<and>
   re_sub match_fenced True (ustr ''```a \"b\"'') \<lparr> code_blocks = [], placeholder_index = 0 \<rparr> =
     (ustr ''```a \"b\"'', \<lparr> code_blocks = [], placeholder_index = 0 \<rparr>) \<and>
   length (filter (\<lambda>c. c = BACKTICK) (ustr ''a `b \"c\"'')) \<le> 1 \<and>
   smart_quote_markdown (ustr ''a `b \"c\"'') = convert_to_smart_quotes (ustr ''a `b \"c\"'')"
proof -
  have 1: "find_sub (replicate 3 BACKTICK) (drop 3 (ustr ''```a \"b\"'')) = None"
    by (simp add: ustr_def ticks3)
  have 2: "length (filter (\<lambda>c. c = BACKTICK) (ustr ''a `b \"c\"'')) \<le> 1 \<and>
      0x09 \<notin> set (ustr ''a `b \"c\"'') \<and> \<not> str_in (replicate 4 0x20) (ustr ''a `b \"c\"'')"
    by (simp add: ustr_def BACKTICK_def str_in_def numeral_eq_Suc)
  from 1 2 defined_output_unmatched_openers [of "ustr ''a `b \"c\"''" "ustr ''```a \"b\"''" True
      "\<lparr> code_blocks = [], placeholder_index = 0 \<rparr>"]
  show ?thesis by blast
qed

lemma unclosed_fence_mask:
  "mask_text (ustr ''```abc \"q\"'') =
   (placeholder_for 0 @ ustr ''`abc \"q\"'',
    \<lparr> code_blocks = [\<lparr> placeholder = placeholder_for 0, content = ustr ''``'' \<rparr>],
      placeholder_index = 1 \<rparr>)"
  by code_simp

text \<open>
  Claim C8 as stated fails for a fence that nothing closes: the fenced pass finds no
  match, but the inline pass then takes the first two of the three backticks as an empty
  inline span, so they do not reach the Director as prose.
\<close>

theorem unmatched_openers_counterexample:
  "find_sub (replicate 3 BACKTICK) (drop 3 (ustr ''```abc \"q\"'')) = None \<and>
   has_straight_quotes (ustr ''```abc \"q\"'') \<and>
   mask_text (ustr ''```abc \"q\"'') =
     (placeholder_for 0 @ ustr ''`abc \"q\"'',
      \<lparr> code_blocks = [\<lparr> placeholder = placeholder_for 0, content = ustr ''``'' \<rparr>],
        placeholder_index = 1 \<rparr>) \<and>
   fst (mask_text (ustr ''```abc \"q\"'')) \<noteq> ustr ''```abc \"q\"''"
proof -
  have "placeholder_for 0 @ ustr ''`abc \"q\"'' \<noteq> ustr ''```abc \"q\"''"
    by (simp add: placeholder_for_0 ustr_def)
  moreover have "find_sub (replicate 3 BACKTICK) (drop 3 (ustr ''```abc \"q\"'')) = None"
    by (simp add: ustr_def ticks3)
  moreover have "has_straight_quotes (ustr ''```abc \"q\"'')"
    by (simp add: has_straight_quotes_iff ustr_def)
  ultimately show ?thesis by (simp add: unclosed_fence_mask)
qed

end
